theory Spec2Isabelle
  imports Complex_Main "HOL-Library.Sublist"
begin

section \<open>JavaScript strings and regular expressions\<close>

text \<open>
  A JavaScript string is a sequence of UTF-16 code units; \<open>length\<close>, the character
  classes of a regular expression without the \<open>u\<close> flag, \<open>split\<close> and \<open>trim\<close> all
  work on code units. A code unit is modelled by its number.
\<close>

type_synonym jchar = int
type_synonym jstring = "jchar list"

definition js :: "string \<Rightarrow> jstring" where
  "js s = map of_char s"

definition nl :: jchar where
  "nl = 10"

definition sp :: jchar where
  "sp = 32"

text \<open>\<open>\s\<close> and the characters \<open>trim\<close> strips: WhiteSpace and LineTerminator of ECMAScript.\<close>

definition is_space :: "jchar \<Rightarrow> bool" where
  "is_space c \<longleftrightarrow> c \<in> {9, 10, 11, 12, 13, 32, 160, 5760, 8232, 8233, 8239, 8287, 12288, 65279}
     \<or> (8192 \<le> c \<and> c \<le> 8202)"

text \<open>The line terminators: where \<open>^\<close> and \<open>$\<close> match under the \<open>m\<close> flag, and what \<open>.\<close> excludes.\<close>

definition is_lt :: "jchar \<Rightarrow> bool" where
  "is_lt c \<longleftrightarrow> c \<in> {10, 13, 8232, 8233}"

definition is_digit :: "jchar \<Rightarrow> bool" where
  "is_digit c \<longleftrightarrow> 48 \<le> c \<and> c \<le> 57"

definition is_upper :: "jchar \<Rightarrow> bool" where
  "is_upper c \<longleftrightarrow> 65 \<le> c \<and> c \<le> 90"

definition is_lower :: "jchar \<Rightarrow> bool" where
  "is_lower c \<longleftrightarrow> 97 \<le> c \<and> c \<le> 122"

definition is_letter :: "jchar \<Rightarrow> bool" where
  "is_letter c \<longleftrightarrow> is_upper c \<or> is_lower c"

text \<open>\<open>[a-zA-Z0-9]\<close>\<close>

definition is_alnum :: "jchar \<Rightarrow> bool" where
  "is_alnum c \<longleftrightarrow> is_letter c \<or> is_digit c"

text \<open>\<open>\w\<close>\<close>

definition is_word :: "jchar \<Rightarrow> bool" where
  "is_word c \<longleftrightarrow> is_alnum c \<or> c = 95"

text \<open>\<open>[ \t]\<close>\<close>

definition is_blank :: "jchar \<Rightarrow> bool" where
  "is_blank c \<longleftrightarrow> c = 32 \<or> c = 9"

text \<open>
  Canonicalize of the \<open>i\<close> flag (no \<open>u\<close> flag): the upper-case form, except that a code unit
  outside ASCII never canonicalizes into ASCII. Every pattern character of the source is ASCII,
  so only the ASCII part of the mapping is needed: a code unit from 128 on is left as it is.
\<close>

definition canon :: "jchar \<Rightarrow> jchar" where
  "canon c = (if is_lower c then c - 32 else c)"

datatype rx =
    Cls "jchar \<Rightarrow> bool"
  | Eps
  | Seq rx rx
  | Alt rx rx
  | Star rx
  | Bol bool
  | Eol bool

text \<open>
  \<open>star_iter f n i\<close>: the end positions of a greedy repetition that starts at \<open>i\<close>, where
  \<open>f\<close> gives the end positions of one iteration, in the order in which backtracking tries
  them: one more iteration first, stopping last. An iteration that consumes nothing is
  rejected (RepeatMatcher), so \<open>n\<close> iterations suffice when \<open>n\<close> code units remain.
\<close>

fun star_iter :: "(nat \<Rightarrow> nat list) \<Rightarrow> nat \<Rightarrow> nat \<Rightarrow> nat list" where
  "star_iter f 0 i = [i]"
| "star_iter f (Suc n) i = concat (map (star_iter f n) (filter (\<lambda>j. i < j) (f i))) @ [i]"

text \<open>
  \<open>rmatch r s i\<close>: the end positions of the matches of \<open>r\<close> in \<open>s\<close> that start at \<open>i\<close>, in
  backtracking order; the head is the match that the engine reports. The argument of
  \<open>Bol\<close> and \<open>Eol\<close> is the \<open>m\<close> flag.
\<close>

primrec rmatch :: "rx \<Rightarrow> jstring \<Rightarrow> nat \<Rightarrow> nat list" where
  "rmatch (Cls P) s i = (if i < length s \<and> P (s ! i) then [Suc i] else [])"
| "rmatch Eps s i = [i]"
| "rmatch (Seq a b) s i = concat (map (rmatch b s) (rmatch a s i))"
| "rmatch (Alt a b) s i = rmatch a s i @ rmatch b s i"
| "rmatch (Star a) s i = star_iter (rmatch a s) (length s - i) i"
| "rmatch (Bol m) s i = (if i = 0 \<or> (m \<and> i \<le> length s \<and> is_lt (s ! (i - 1))) then [i] else [])"
| "rmatch (Eol m) s i = (if i = length s \<or> (m \<and> i < length s \<and> is_lt (s ! i)) then [i] else [])"

definition first_match :: "rx \<Rightarrow> jstring \<Rightarrow> nat \<Rightarrow> nat option" where
  "first_match r s i = (case rmatch r s i of [] \<Rightarrow> None | j # _ \<Rightarrow> Some j)"

definition Plus :: "rx \<Rightarrow> rx" where
  "Plus r = Seq r (Star r)"

definition Opt :: "rx \<Rightarrow> rx" where
  "Opt r = Alt r Eps"

definition Chr :: "char \<Rightarrow> rx" where
  "Chr c = Cls (\<lambda>x. x = of_char c)"

text \<open>A pattern character under the \<open>i\<close> flag.\<close>

definition Chr_ci :: "char \<Rightarrow> rx" where
  "Chr_ci c = Cls (\<lambda>x. canon x = canon (of_char c))"

fun Seqs :: "rx list \<Rightarrow> rx" where
  "Seqs [] = Eps"
| "Seqs [r] = r"
| "Seqs (r # rs) = Seq r (Seqs rs)"

fun Alts :: "rx list \<Rightarrow> rx" where
  "Alts [] = Cls (\<lambda>_. False)"
| "Alts [r] = r"
| "Alts (r # rs) = Alt r (Alts rs)"

definition Lit_ci :: "string \<Rightarrow> rx" where
  "Lit_ci s = Seqs (map Chr_ci s)"

text \<open>\<open>RegExp.prototype.test\<close> of a regular expression without \<open>g\<close>: some start position has a match.\<close>

definition rx_test :: "rx \<Rightarrow> jstring \<Rightarrow> bool" where
  "rx_test r s = list_ex (\<lambda>i. rmatch r s i \<noteq> []) [0..<Suc (length s)]"

text \<open>
  \<open>s.replace(r, rep)\<close> with the \<open>g\<close> flag and a replacement without \<open>$\<close>: \<open>replace_go\<close> walks
  the rest of \<open>s\<close> from position \<open>i\<close>; \<open>k\<close> counts the code units of the current match still to
  be skipped. After an empty match the engine advances by one code unit, which is kept.
\<close>

fun replace_go :: "rx \<Rightarrow> jstring \<Rightarrow> jstring \<Rightarrow> nat \<Rightarrow> nat \<Rightarrow> jstring \<Rightarrow> jstring" where
  "replace_go r rep s i k [] =
     (if k = 0 then (case first_match r s i of None \<Rightarrow> [] | Some j \<Rightarrow> rep) else [])"
| "replace_go r rep s i k (c # cs) =
     (if 0 < k then replace_go r rep s (Suc i) (k - 1) cs
      else case first_match r s i of
             None \<Rightarrow> c # replace_go r rep s (Suc i) 0 cs
           | Some j \<Rightarrow>
               if j \<le> i then rep @ c # replace_go r rep s (Suc i) 0 cs
               else rep @ replace_go r rep s (Suc i) (j - Suc i) cs)"

definition replace_all :: "rx \<Rightarrow> jstring \<Rightarrow> jstring \<Rightarrow> jstring" where
  "replace_all r rep s = replace_go r rep s 0 0 s"

text \<open>\<open>s.split('\n')\<close> and \<open>lines.join('\n')\<close>.\<close>

fun split_nl :: "jstring \<Rightarrow> jstring list" where
  "split_nl [] = [[]]"
| "split_nl (c # cs) =
     (if c = nl then [] # split_nl cs
      else (case split_nl cs of l # ls \<Rightarrow> (c # l) # ls | [] \<Rightarrow> [[c]]))"

fun join_nl :: "jstring list \<Rightarrow> jstring" where
  "join_nl [] = []"
| "join_nl [l] = l"
| "join_nl (l # ls) = l @ nl # join_nl ls"

definition trim :: "jstring \<Rightarrow> jstring" where
  "trim s = rev (dropWhile is_space (rev (dropWhile is_space s)))"

section \<open>The text sanitizer\<close>

text \<open>\<open>/^[^\w\s]{1,2}$/gm\<close>\<close>

definition not_word_space :: "jchar \<Rightarrow> bool" where
  "not_word_space c \<longleftrightarrow> \<not> is_word c \<and> \<not> is_space c"

definition rx_symbol_line_short :: rx where
  "rx_symbol_line_short =
     Seqs [Bol True, Cls not_word_space, Opt (Cls not_word_space), Eol True]"

text \<open>\<open>/^[^\w\s]{3,}$/gm\<close>\<close>

definition rx_symbol_line_long :: rx where
  "rx_symbol_line_long =
     Seqs [Bol True, Cls not_word_space, Cls not_word_space, Cls not_word_space,
           Star (Cls not_word_space), Eol True]"

text \<open>\<open>/[\<euro>@\<registered>\<copyright>\<trademark>]/g\<close>: U+20AC, U+0040, U+00AE, U+00A9, U+2122\<close>

definition rx_glyphs :: rx where
  "rx_glyphs = Cls (\<lambda>c. c \<in> {8364, 64, 174, 169, 8482})"

text \<open>\<open>/[\[\]{}]/g\<close>\<close>

definition rx_brackets :: rx where
  "rx_brackets = Cls (\<lambda>c. c \<in> {91, 93, 123, 125})"

text \<open>\<open>/[""]/g\<close> and \<open>/['']/g\<close>: in the source both members of each class are the ASCII quote.\<close>

definition rx_dquote :: rx where
  "rx_dquote = Cls (\<lambda>c. c = 34)"

definition rx_squote :: rx where
  "rx_squote = Cls (\<lambda>c. c = 39)"

text \<open>\<open>/^\d+\s+(others?|comments?)$/gmi\<close>\<close>

definition rx_count_line :: rx where
  "rx_count_line =
     Seqs [Bol True, Plus (Cls is_digit), Plus (Cls is_space),
           Alt (Seq (Lit_ci ''other'') (Opt (Chr_ci CHR ''s'')))
               (Seq (Lit_ci ''comment'') (Opt (Chr_ci CHR ''s''))),
           Eol True]"

text \<open>\<open>/and\s+\d+\s+others?\s+\d+\s+comments?/gi\<close>\<close>

definition rx_and_others_comments :: rx where
  "rx_and_others_comments =
     Seqs [Lit_ci ''and'', Plus (Cls is_space), Plus (Cls is_digit), Plus (Cls is_space),
           Lit_ci ''other'', Opt (Chr_ci CHR ''s''), Plus (Cls is_space),
           Plus (Cls is_digit), Plus (Cls is_space), Lit_ci ''comment'', Opt (Chr_ci CHR ''s'')]"

text \<open>\<open>/^\d+\s+comments?$/gmi\<close>\<close>

definition rx_comments_line :: rx where
  "rx_comments_line =
     Seqs [Bol True, Plus (Cls is_digit), Plus (Cls is_space),
           Lit_ci ''comment'', Opt (Chr_ci CHR ''s''), Eol True]"

text \<open>
  \<open>/[A-Z][a-z]+\s+[A-Z][a-z]+\s+[A-Z][a-z]+.*and\s+\d+\s+others.*\d+\s+comments?/gi\<close>:
  under the \<open>i\<close> flag \<open>[A-Z]\<close> and \<open>[a-z]\<close> are both the ASCII letters.
\<close>

definition rx_name :: rx where
  "rx_name = Seq (Cls is_letter) (Plus (Cls is_letter))"

definition rx_dot :: rx where
  "rx_dot = Cls (\<lambda>c. \<not> is_lt c)"

definition rx_names_metrics :: rx where
  "rx_names_metrics =
     Seqs [rx_name, Plus (Cls is_space), rx_name, Plus (Cls is_space), rx_name,
           Star rx_dot,
           Lit_ci ''and'', Plus (Cls is_space), Plus (Cls is_digit), Plus (Cls is_space),
           Lit_ci ''others'',
           Star rx_dot,
           Plus (Cls is_digit), Plus (Cls is_space), Lit_ci ''comment'', Opt (Chr_ci CHR ''s'')]"

text \<open>\<open>/\n{3,}/g\<close> and \<open>/[ \t]+/g\<close>\<close>

definition rx_newlines3 :: rx where
  "rx_newlines3 =
     Seqs [Cls (\<lambda>c. c = nl), Cls (\<lambda>c. c = nl), Cls (\<lambda>c. c = nl), Star (Cls (\<lambda>c. c = nl))]"

definition rx_blanks :: rx where
  "rx_blanks = Plus (Cls is_blank)"

text \<open>
  The density filter: \<open>line.length < 3\<close> rejects, then \<open>wordChars.length >= line.length * 0.3\<close>
  with \<open>wordChars = line.match(/[a-zA-Z0-9]/g) || []\<close>. The source compares the integer count
  with a product rounded to a double. When \<open>3 * length\<close> is a multiple of 10 the exact product
  is just below the integer \<open>0.3 * length\<close> and rounds to it or to a double just below it;
  otherwise \<open>0.3 * length\<close> is at least 0.1 away from every integer and the rounding error is
  far smaller. So the comparison of the source is the exact one, \<open>3 * length \<le> 10 * count\<close>.
\<close>

definition dense_line :: "jstring \<Rightarrow> bool" where
  "dense_line line \<longleftrightarrow>
     (if length line < 3 then False
      else let wordChars = filter is_alnum line
           in 3 * length line \<le> 10 * length wordChars)"

text \<open>The list \<open>engagementPatterns\<close>.\<close>

definition engagementPatterns :: "rx list" where
  "engagementPatterns =
     [ Seqs [Bol False, Plus (Cls is_digit), Star (Cls is_space),
             Alts [Lit_ci ''like'', Lit_ci ''comment'', Lit_ci ''share'', Lit_ci ''repost'']],
       Seqs [Bol False,
             Alts [Lit_ci ''like'', Lit_ci ''comment'', Lit_ci ''share'', Lit_ci ''repost'',
                   Lit_ci ''send''],
             Eol False],
       Seqs [Bol False, Star (Cls (\<lambda>c. \<not> is_word c)), Eol False],
       Seqs [Bol False, rx_name, Plus (Cls is_space), rx_name, Plus (Cls is_space),
             Lit_ci ''and'', Plus (Cls is_space), Plus (Cls is_digit), Plus (Cls is_space),
             Lit_ci ''others''] ]"

definition keep_line :: "jstring \<Rightarrow> bool" where
  "keep_line line \<longleftrightarrow>
     (let trimmed = trim line
      in if trimmed = [] then False
         else \<not> list_ex (\<lambda>pattern. rx_test pattern trimmed) engagementPatterns)"

definition cleanOCRText :: "jstring \<Rightarrow> jstring" where
  "cleanOCRText text =
     (let cleaned = text;
          cleaned = replace_all rx_symbol_line_short [] cleaned;
          cleaned = replace_all rx_symbol_line_long [] cleaned;
          cleaned = replace_all rx_glyphs [] cleaned;
          cleaned = replace_all rx_brackets [] cleaned;
          cleaned = replace_all rx_dquote [34] cleaned;
          cleaned = replace_all rx_squote [39] cleaned;
          cleaned = replace_all rx_count_line [] cleaned;
          cleaned = replace_all rx_and_others_comments [] cleaned;
          cleaned = replace_all rx_comments_line [] cleaned;
          cleaned = replace_all rx_names_metrics [] cleaned;
          cleaned = join_nl (filter dense_line (map trim (split_nl cleaned)));
          cleaned = replace_all rx_newlines3 [nl, nl] cleaned;
          cleaned = replace_all rx_blanks [sp] cleaned;
          cleaned = trim cleaned;
          cleaned = join_nl (filter keep_line (split_nl cleaned))
      in trim cleaned)"

section \<open>The quality scorer\<close>

text \<open>
  \<open>s.split(r)\<close> with a regular expression: \<open>split_go\<close> walks the rest of \<open>s\<close> from position \<open>i\<close>,
  \<open>cur\<close> is the piece since the last separator, \<open>k\<close> the code units of the current separator
  still to be skipped. A match that ends where the last separator ended is not a separator.
\<close>

fun split_go :: "rx \<Rightarrow> jstring \<Rightarrow> nat \<Rightarrow> nat \<Rightarrow> jstring \<Rightarrow> jstring \<Rightarrow> jstring list" where
  "split_go r s i k cur [] = [cur]"
| "split_go r s i k cur (c # cs) =
     (if 0 < k then split_go r s (Suc i) (k - 1) cur cs
      else case first_match r s i of
             None \<Rightarrow> split_go r s (Suc i) 0 (cur @ [c]) cs
           | Some j \<Rightarrow>
               if j \<le> i then
                 (if cur = [] then split_go r s (Suc i) 0 [c] cs
                  else cur # split_go r s (Suc i) 0 [c] cs)
               else cur # split_go r s (Suc i) (j - Suc i) [] cs)"

definition split_rx :: "rx \<Rightarrow> jstring \<Rightarrow> jstring list" where
  "split_rx r s =
     (if s = [] then (case first_match r s 0 of None \<Rightarrow> [[]] | Some j \<Rightarrow> [])
      else split_go r s 0 0 [] s)"

text \<open>\<open>/\s+/\<close>\<close>

definition rx_spaces :: rx where
  "rx_spaces = Plus (Cls is_space)"

text \<open>
  A JavaScript number is an IEEE 754 double; the finite doubles are modelled by the rationals
  they denote. \<open>fl x\<close> is the double nearest to \<open>x\<close>, the tie going to the even significand,
  which is the result of every arithmetic operation of the language on the exact result
  \<open>x\<close>. Overflow to infinity is left out: the values of \<open>scoreOCRQuality\<close> are averages and
  ratios of lengths and stay far below \<open>2^1024\<close>. An integer below \<open>2^53\<close>, such as a length
  or a count, is a double.
\<close>

function bitlen :: "int \<Rightarrow> nat" where
  "bitlen n = (if n \<le> 0 then 0 else Suc (bitlen (n div 2)))"
  by pat_completeness auto
termination
  by (relation "measure nat") auto

definition pow2 :: "int \<Rightarrow> rat" where
  "pow2 k = (if 0 \<le> k then 2 ^ nat k else 1 / 2 ^ nat (- k))"

definition fl :: "rat \<Rightarrow> rat" where
  "fl x =
     (if x = 0 then 0
      else
        let a = \<bar>x\<bar>;
            k = int (bitlen (fst (quotient_of a))) - int (bitlen (snd (quotient_of a)));
            e = (if pow2 k \<le> a then k else k - 1);
            e = max e (- 1022);
            ulp = pow2 (e - 52);
            m = a / ulp;
            f = \<lfloor>m\<rfloor>;
            r = m - of_int f;
            z = (if r < 1 / 2 then f
                 else if 1 / 2 < r then f + 1
                 else if even f then f else f + 1)
        in sgn x * of_int z * ulp)"

text \<open>
  \<open>scoreOCRQuality\<close>, with every division, multiplication and addition of the source rounded;
  the literals \<open>0.3\<close> and \<open>0.4\<close> are the doubles nearest to them. As for 0.3 above,
  \<open>wordChars.length >= l.length * 0.4\<close> is the exact comparison \<open>4 * length \<le> 10 * count\<close>: when
  \<open>0.4 * length\<close> is an integer the product rounds to it.
\<close>

definition scoreOCRQuality :: "jstring \<Rightarrow> rat" where
  "scoreOCRQuality text =
     (if text = [] then 0
      else
        let words = filter (\<lambda>w. 0 < length w) (split_rx rx_spaces text)
        in if length words = 0 then 0
           else
             let avgWordLength =
                   fl (of_nat (foldl (\<lambda>sum w. sum + length w) 0 words) / of_nat (length words));
                 reasonableWords = length (filter (\<lambda>w. 3 \<le> length w \<and> length w \<le> 20) words);
                 reasonableRatio = fl (of_nat reasonableWords / of_nat (length words));
                 lines = filter (\<lambda>l. 0 < length (trim l)) (split_nl text);
                 meaningfulLines =
                   length (filter (\<lambda>l. 4 * length l \<le> 10 * length (filter is_alnum l)) lines);
                 meaningfulRatio =
                   (if 0 < length lines then fl (of_nat meaningfulLines / of_nat (length lines))
                    else 0)
             in fl (fl (fl (fl (avgWordLength / 10) * fl (3 / 10))
                        + fl (reasonableRatio * fl (4 / 10)))
                    + fl (meaningfulRatio * fl (3 / 10))))"

section \<open>The preprocessor\<close>

text \<open>
  The image library is outside the program; the model takes what it does as an
  environment. \<open>sharp_loaded\<close> says whether \<open>require('sharp')\<close> succeeded, \<open>metadata\<close> is the
  outcome of \<open>sharp(inputPath).metadata()\<close> (an error message, or the width when the metadata
  has one), \<open>toFile\<close> the outcome of running a pipeline on an input and writing it to the
  output path. A failure is the message of the error thrown.
\<close>

datatype sharp_op =
    Greyscale
  | Normalize
  | Sharpen
  | Linear
  | Median nat
  | Resize nat

record sharp_env =
  sharp_loaded :: bool
  metadata :: "jstring \<Rightarrow> string + nat option"
  toFile :: "jstring \<Rightarrow> sharp_op list \<Rightarrow> jstring \<Rightarrow> string + unit"

text \<open>\<open>Math.max(2, Math.ceil(1000 / width))\<close>, for a width from 1 to 999.\<close>

definition scaleFactor :: "nat \<Rightarrow> nat" where
  "scaleFactor w = max 2 ((1000 + w - 1) div w)"

text \<open>The pipeline built in lines 35 to 48, from the width of the metadata.\<close>

definition build_pipeline :: "nat option \<Rightarrow> sharp_op list" where
  "build_pipeline width =
     (let pipeline = [Greyscale, Normalize, Sharpen, Linear, Median 2]
      in case width of
           None \<Rightarrow> pipeline
         | Some w \<Rightarrow>
             if w \<noteq> 0 \<and> w < 1000 then pipeline @ [Resize (w * scaleFactor w)]
             else pipeline)"

text \<open>The body of the \<open>try\<close> block of \<open>preprocessImage\<close>.\<close>

definition preprocess_try :: "sharp_env \<Rightarrow> jstring \<Rightarrow> jstring \<Rightarrow> string + jstring" where
  "preprocess_try env inputPath outputPath =
     (case metadata env inputPath of
        Inl err \<Rightarrow> Inl err
      | Inr width \<Rightarrow>
          (case toFile env inputPath (build_pipeline width) outputPath of
             Inl err \<Rightarrow> Inl err
           | Inr _ \<Rightarrow> Inr outputPath))"

text \<open>
  \<open>preprocessImage\<close>: the result is \<open>Inl\<close> when the function throws and \<open>Inr\<close> the path it
  returns.
\<close>

definition preprocessImage :: "sharp_env \<Rightarrow> jstring \<Rightarrow> jstring \<Rightarrow> string + jstring" where
  "preprocessImage env inputPath outputPath =
     (if \<not> sharp_loaded env then Inr inputPath
      else case preprocess_try env inputPath outputPath of
             Inr path \<Rightarrow> Inr path
           | Inl error \<Rightarrow> Inr inputPath)"

section \<open>Recognition runs and selection\<close>

record recognition_config =
  cfg_name :: string
  tessedit_pageseg_mode :: string
  tessedit_ocr_engine_mode :: string

definition configurations :: "recognition_config list" where
  "configurations =
     [ \<lparr>cfg_name = ''PSM 6 - Single Block'', tessedit_pageseg_mode = ''6'',
        tessedit_ocr_engine_mode = ''1''\<rparr>,
       \<lparr>cfg_name = ''PSM 3 - Auto'', tessedit_pageseg_mode = ''3'',
        tessedit_ocr_engine_mode = ''1''\<rparr>,
       \<lparr>cfg_name = ''PSM 11 - Sparse'', tessedit_pageseg_mode = ''11'',
        tessedit_ocr_engine_mode = ''1''\<rparr>,
       \<lparr>cfg_name = ''PSM 6 - Legacy'', tessedit_pageseg_mode = ''6'',
        tessedit_ocr_engine_mode = ''0''\<rparr> ]"

record candidate =
  cand_text :: jstring
  cand_quality :: rat
  cand_config :: string

text \<open>
  The state of the loop over the configurations: the array \<open>results\<close> and the lines
  written by \<open>console.error\<close>.
\<close>

record run_state =
  results :: "candidate list"
  errors :: "string list"

text \<open>
  The recognition engine is an environment too: \<open>recognize config imagePath\<close> is the outcome
  of \<open>worker.setParameters(config.params)\<close> followed by \<open>worker.recognize(imagePath)\<close>, the
  message of the error thrown or the recognized text.
\<close>

type_synonym engine = "recognition_config \<Rightarrow> jstring \<Rightarrow> string + jstring"

definition run_config :: "engine \<Rightarrow> jstring \<Rightarrow> run_state \<Rightarrow> recognition_config \<Rightarrow> run_state" where
  "run_config recognize imagePath st config =
     (case recognize config imagePath of
        Inr text \<Rightarrow>
          let cleanedText = cleanOCRText text;
              quality = scoreOCRQuality cleanedText
          in st\<lparr>results := results st @
                 [\<lparr>cand_text = cleanedText, cand_quality = quality,
                   cand_config = cfg_name config\<rparr>]\<rparr>
      | Inl err \<Rightarrow>
          st\<lparr>errors := errors st @ [''OCR failed with '' @ cfg_name config @ '': '' @ err]\<rparr>)"

definition run_configurations :: "engine \<Rightarrow> jstring \<Rightarrow> recognition_config list \<Rightarrow> run_state" where
  "run_configurations recognize imagePath configs =
     foldl (run_config recognize imagePath) \<lparr>results = [], errors = []\<rparr> configs"

text \<open>
  \<open>results.sort((a, b) => b.quality - a.quality)\<close>: \<open>Array.prototype.sort\<close> is stable, and the
  comparison function is consistent (a quality is never NaN), so the result is the one
  stable arrangement: \<open>a\<close> stays before a later \<open>b\<close> unless the comparison is positive.
\<close>

definition compare_quality :: "candidate \<Rightarrow> candidate \<Rightarrow> rat" where
  "compare_quality a b = cand_quality b - cand_quality a"

fun insert_sorted :: "candidate \<Rightarrow> candidate list \<Rightarrow> candidate list" where
  "insert_sorted a [] = [a]"
| "insert_sorted a (b # bs) =
     (if compare_quality a b \<le> 0 then a # b # bs else b # insert_sorted a bs)"

fun sort_results :: "candidate list \<Rightarrow> candidate list" where
  "sort_results [] = []"
| "sort_results (a # as) = insert_sorted a (sort_results as)"

text \<open>
  \<open>s.replace(r, rep)\<close> without the \<open>g\<close> flag replaces the first match only;
  \<open>/\.[^.]+$/\<close> is the extension of the file name.
\<close>

fun replace_first_go :: "rx \<Rightarrow> jstring \<Rightarrow> jstring \<Rightarrow> nat \<Rightarrow> jstring \<Rightarrow> jstring" where
  "replace_first_go r rep s i [] = (case first_match r s i of None \<Rightarrow> [] | Some j \<Rightarrow> rep)"
| "replace_first_go r rep s i (c # cs) =
     (case first_match r s i of
        None \<Rightarrow> c # replace_first_go r rep s (Suc i) cs
      | Some j \<Rightarrow> rep @ drop (j - i) (c # cs))"

definition replace_first :: "rx \<Rightarrow> jstring \<Rightarrow> jstring \<Rightarrow> jstring" where
  "replace_first r rep s = replace_first_go r rep s 0 s"

definition rx_extension :: rx where
  "rx_extension = Seqs [Chr CHR ''.'', Plus (Cls (\<lambda>c. c \<noteq> of_char CHR ''.'')), Eol False]"

text \<open>
  The recognition worker is part of the environment: \<open>createWorker\<close> is the outcome of
  \<open>createWorker('eng')\<close>, and \<open>terminate n\<close> the outcome of the call of \<open>worker.terminate()\<close>
  that comes after \<open>n\<close> earlier ones (an error message, or nothing).
\<close>

record ocr_env =
  createWorker :: "string + unit"
  sharp :: sharp_env
  recognize :: engine
  terminate :: "nat \<Rightarrow> string + unit"

text \<open>The selection: lines 223 to 228, between the loop and the termination of the worker.\<close>

definition select_best :: "candidate list \<Rightarrow> string + jstring" where
  "select_best res =
     (case sort_results res of
        [] \<Rightarrow> Inl ''No text could be extracted from the image''
      | bestResult # _ \<Rightarrow>
          if length (cand_text bestResult) = 0
          then Inl ''No text could be extracted from the image''
          else Inr (cand_text bestResult))"

text \<open>
  The \<open>try\<close> block of \<open>extractTextFromImage\<close>, lines 165 to 239: what it returns or the message
  of what it throws, and how many times it has called \<open>worker.terminate()\<close>. Deleting the
  preprocessed file cannot fail (the rejection is swallowed) and is left out.
\<close>

definition extract_image_try :: "ocr_env \<Rightarrow> jstring \<Rightarrow> (string + jstring) \<times> nat" where
  "extract_image_try env filePath =
     (let preprocessedPath = replace_first rx_extension (js ''_preprocessed.png'') filePath
      in case preprocessImage (sharp env) filePath preprocessedPath of
           Inl err \<Rightarrow> (Inl err, 0)
         | Inr imagePath \<Rightarrow>
             (case select_best
                     (results (run_configurations (recognize env) imagePath configurations)) of
                Inl err \<Rightarrow> (Inl err, 0)
              | Inr text \<Rightarrow>
                  (case terminate env 0 of
                     Inl err \<Rightarrow> (Inl err, 1)
                   | Inr _ \<Rightarrow> (Inr text, 1))))"

text \<open>
  \<open>extractTextFromImage\<close>. The worker is created before the \<open>try\<close>, so a failure to create it
  is thrown as it is. The \<open>catch\<close> terminates the worker, which may throw in its turn, and
  otherwise wraps the message of what the \<open>try\<close> block threw.
\<close>

definition extractTextFromImage :: "ocr_env \<Rightarrow> jstring \<Rightarrow> string + jstring" where
  "extractTextFromImage env filePath =
     (case createWorker env of
        Inl err \<Rightarrow> Inl err
      | Inr worker \<Rightarrow>
          (case extract_image_try env filePath of
             (Inr text, n) \<Rightarrow> Inr text
           | (Inl message, n) \<Rightarrow>
               (case terminate env n of
                  Inl err \<Rightarrow> Inl err
                | Inr _ \<Rightarrow> Inl (''Failed to extract text from image: '' @ message))))"

section \<open>The PDF extractor\<close>

text \<open>\<open>message.includes(part)\<close>\<close>

fun str_includes :: "string \<Rightarrow> string \<Rightarrow> bool" where
  "str_includes [] part = (part = [])"
| "str_includes (c # cs) part = (prefix part (c # cs) \<or> str_includes cs part)"

text \<open>
  The two ways in which the source calls the parser: \<open>pdfParse(dataBuffer)\<close> and
  \<open>pdfParse(dataBuffer, {max: 0})\<close>.
\<close>

datatype parse_options = DefaultOptions | MaxZero

text \<open>
  The file system and the parser are the environment. \<open>readFile\<close> gives the message of the
  error or the bytes of the file; \<open>pdfParse\<close> gives the message of the error or the field
  \<open>text\<close> of the data (\<open>None\<close> when there is no data object or no such field).
\<close>

record pdf_env =
  readFile :: "jstring \<Rightarrow> string + nat list"
  pdfParse :: "nat list \<Rightarrow> parse_options \<Rightarrow> string + jstring option"

text \<open>
  The result of a run: what the function returns or the error it throws, and the calls of
  the parser it made.
\<close>

type_synonym 'a traced = "(string + 'a) \<times> parse_options list"

definition is_xref :: "string \<Rightarrow> bool" where
  "is_xref message \<longleftrightarrow> str_includes message ''XRef'' \<or> str_includes message ''xref''"

definition corrupted_message :: "string \<Rightarrow> string" where
  "corrupted_message m =
     ''PDF appears to be corrupted or uses unsupported features. '' @
     ''Error: '' @ m @ ''. '' @
     ''Please try converting the PDF to a standard format or use an image version of the document.''"

text \<open>Lines 14 to 38: the parse and its one retry.\<close>

definition parse_with_recovery :: "pdf_env \<Rightarrow> nat list \<Rightarrow> (jstring option) traced" where
  "parse_with_recovery env dataBuffer =
     (case pdfParse env dataBuffer DefaultOptions of
        Inr data \<Rightarrow> (Inr data, [DefaultOptions])
      | Inl parseError \<Rightarrow>
          if is_xref parseError then
            (case pdfParse env dataBuffer MaxZero of
               Inr data \<Rightarrow> (Inr data, [DefaultOptions, MaxZero])
             | Inl retryError \<Rightarrow>
                 (Inl (corrupted_message parseError), [DefaultOptions, MaxZero]))
          else (Inl parseError, [DefaultOptions]))"

definition no_text_message :: string where
  "no_text_message = ''No text could be extracted from the PDF. The PDF may contain only images.''"

definition no_extractable_text_message :: string where
  "no_extractable_text_message =
     ''PDF appears to contain no extractable text. '' @
     ''It may be an image-based PDF. Please try uploading as an image file instead.''"

text \<open>Lines 46 to 50: the whitespace normalization of the PDF path.\<close>

definition normalize_pdf_text :: "jstring \<Rightarrow> jstring" where
  "normalize_pdf_text text = trim (replace_all rx_newlines3 [nl, nl] text)"

text \<open>Lines 40 to 60: from the parsed data to the text.\<close>

definition text_of_data :: "jstring option \<Rightarrow> string + jstring" where
  "text_of_data data =
     (case data of
        None \<Rightarrow> Inl no_text_message
      | Some t \<Rightarrow>
          if t = [] then Inl no_text_message
          else
            let text = normalize_pdf_text t
            in if length text = 0 then Inl no_extractable_text_message else Inr text)"

text \<open>The body of the outer \<open>try\<close> block.\<close>

definition extract_try :: "pdf_env \<Rightarrow> jstring \<Rightarrow> jstring traced" where
  "extract_try env filePath =
     (case readFile env filePath of
        Inl err \<Rightarrow> (Inl err, [])
      | Inr dataBuffer \<Rightarrow>
          (case parse_with_recovery env dataBuffer of
             (Inl err, calls) \<Rightarrow> (Inl err, calls)
           | (Inr data, calls) \<Rightarrow> (text_of_data data, calls)))"

definition structural_message :: "string \<Rightarrow> string" where
  "structural_message m =
     ''PDF parsing error: The PDF file appears to have structural issues ('' @ m @ ''). '' @
     ''This can happen with corrupted PDFs or PDFs created with certain software. '' @
     ''Try: 1) Re-saving the PDF, 2) Converting to an image and uploading as PNG/JPEG, or 3) Using a different PDF file.''"

definition password_message :: string where
  "password_message =
     ''PDF is password-protected or encrypted. Please remove the password and try again.''"

definition failed_message :: "string \<Rightarrow> string" where
  "failed_message m = ''Failed to extract text from PDF: '' @ m"

text \<open>The outer \<open>catch\<close>: the message of the error that \<open>extractTextFromPDF\<close> throws.\<close>

definition rethrow :: "string \<Rightarrow> string" where
  "rethrow message =
     (if is_xref message then structural_message message
      else if str_includes message ''password'' \<or> str_includes message ''encrypted'' then password_message
      else failed_message message)"

definition extractTextFromPDF :: "pdf_env \<Rightarrow> jstring \<Rightarrow> jstring traced" where
  "extractTextFromPDF env filePath =
     (case extract_try env filePath of
        (Inr text, calls) \<Rightarrow> (Inr text, calls)
      | (Inl message, calls) \<Rightarrow> (Inl (rethrow message), calls))"

section \<open>Auxiliary notions for the proofs\<close>

text \<open>
  The lines of a text: the pieces between the newlines; the empty text has no line.
\<close>

definition text_lines :: "jstring \<Rightarrow> jstring list" where
  "text_lines s = (if s = [] then [] else split_nl s)"

abbreviation is_nl :: "jchar \<Rightarrow> bool" where
  "is_nl \<equiv> (\<lambda>c. c = nl)"

text \<open>What the replacement of \<open>/[ \t]+/g\<close> by one space computes, by recursion on the text.\<close>

fun collapse_blanks :: "jstring \<Rightarrow> jstring" where
  "collapse_blanks [] = []"
| "collapse_blanks [c] = (if is_blank c then [sp] else [c])"
| "collapse_blanks (c # d # cs) =
     (if is_blank c then (if is_blank d then collapse_blanks (d # cs) else sp # collapse_blanks (d # cs))
      else c # collapse_blanks (d # cs))"

text \<open>What the replacement of \<open>/\n{3,}/g\<close> by two newlines computes.\<close>

fun squeeze_nl :: "jstring \<Rightarrow> jstring" where
  "squeeze_nl (a # b # c # cs) =
     (if a = nl \<and> b = nl \<and> c = nl then squeeze_nl (b # c # cs) else a # squeeze_nl (b # c # cs))"
| "squeeze_nl cs = cs"

text \<open>A line as the density filter leaves it: not empty, without newline, no space at either end.\<close>

definition tidy_line :: "jstring \<Rightarrow> bool" where
  "tidy_line l \<longleftrightarrow> l \<noteq> [] \<and> nl \<notin> set l \<and> \<not> is_space (hd l) \<and> \<not> is_space (last l)"

text \<open>The first ten replacements of \<open>cleanOCRText\<close>, lines 69 to 88.\<close>

definition strip_phase :: "jstring \<Rightarrow> jstring" where
  "strip_phase text =
     replace_all rx_names_metrics []
      (replace_all rx_comments_line []
        (replace_all rx_and_others_comments []
          (replace_all rx_count_line []
            (replace_all rx_squote [39]
              (replace_all rx_dquote [34]
                (replace_all rx_brackets []
                  (replace_all rx_glyphs []
                    (replace_all rx_symbol_line_long []
                      (replace_all rx_symbol_line_short [] text)))))))))"

definition tab_to_space :: "jchar \<Rightarrow> jchar" where
  "tab_to_space c = (if c = 9 then 32 else c)"

text \<open>
  The remediation sentences of the messages of \<open>extractTextFromPDF\<close>: of the structural
  message, of the password message and of the message for a PDF without extractable text.
\<close>

definition remediation_suggestions :: "string list" where
  "remediation_suggestions =
     [''Try: 1) Re-saving the PDF, 2) Converting to an image and uploading as PNG/JPEG, or 3) Using a different PDF file.'',
      ''Please remove the password and try again.'',
      ''Please try uploading as an image file instead.'']"

definition has_remediation :: "string \<Rightarrow> bool" where
  "has_remediation message = list_ex (str_includes message) remediation_suggestions"

section \<open>Properties of the preprocessor\<close>

text \<open>
  Claim C9. \<open>preprocessImage\<close> never throws: it returns the input path or the output path.
  Whenever a step fails (the image library did not load, reading the metadata fails, or
  running the pipeline and writing the file fails), it returns the path of the original
  image.
\<close>

theorem preprocessImage_never_raises:
  "(preprocessImage env inp out = Inr inp \<or> preprocessImage env inp out = Inr out) \<and>
   (\<not> sharp_loaded env \<or> isl (metadata env inp) \<or>
      (\<exists>w. metadata env inp = Inr w \<and> isl (toFile env inp (build_pipeline w) out))
    \<longrightarrow> preprocessImage env inp out = Inr inp)"
  by (auto simp: preprocessImage_def preprocess_try_def split: sum.splits)

theorem preprocessImage_never_raises_witness:
  "preprocessImage \<lparr>sharp_loaded = True, metadata = (\<lambda>p. Inl ''Input file is missing''),
       toFile = (\<lambda>i ops out. Inr ())\<rparr> (js ''shot.png'') (js ''shot_preprocessed.png'')
     = Inr (js ''shot.png'')"
  using preprocessImage_never_raises
    [of "\<lparr>sharp_loaded = True, metadata = (\<lambda>p. Inl ''Input file is missing''),
       toFile = (\<lambda>i ops out. Inr ())\<rparr>" "js ''shot.png''" "js ''shot_preprocessed.png''"]
  by simp

section \<open>Properties of the recognition runs\<close>

lemma run_fold_results:
  "map cand_config (results (foldl (run_config rec img) st cs)) =
     map cand_config (results st) @ map cfg_name (filter (\<lambda>c. \<not> isl (rec c img)) cs)"
  by (induction cs arbitrary: st) (auto simp: run_config_def Let_def split: sum.splits)

lemma run_fold_count:
  "length (results (foldl (run_config rec img) st cs))
     + length (errors (foldl (run_config rec img) st cs))
     = length (results st) + length (errors st) + length cs"
  by (induction cs arbitrary: st) (auto simp: run_config_def Let_def split: sum.splits)

lemma run_results_names:
  "map cand_config (results (run_configurations rec img cs)) =
     map cfg_name (filter (\<lambda>c. \<not> isl (rec c img)) cs)"
  by (simp add: run_configurations_def run_fold_results)

lemma run_count:
  "length (results (run_configurations rec img cs))
     + length (errors (run_configurations rec img cs)) = length cs"
  by (simp add: run_configurations_def run_fold_count)

text \<open>
  Claim C6. Over the four configurations, the candidates are those of the configurations
  whose recognition succeeded, in the order of the configurations, whatever failed before
  them; every configuration gives a candidate or a logged error, so each one was tried; there
  are at most four candidates, and none when every recognition fails.
\<close>

theorem run_configurations_isolates_failures:
  "map cand_config (results (run_configurations rec img configurations)) =
     map cfg_name (filter (\<lambda>c. \<not> isl (rec c img)) configurations) \<and>
   length (results (run_configurations rec img configurations))
     + length (errors (run_configurations rec img configurations)) = 4 \<and>
   length (results (run_configurations rec img configurations)) \<le> 4 \<and>
   ((\<forall>c \<in> set configurations. isl (rec c img)) \<longrightarrow>
      results (run_configurations rec img configurations) = [])"
proof -
  have n: "length configurations = 4" by (simp add: configurations_def)
  have c: "length (results (run_configurations rec img configurations))
     + length (errors (run_configurations rec img configurations)) = 4"
    using run_count [of rec img configurations] n by simp
  have e: "(\<forall>c \<in> set configurations. isl (rec c img)) \<longrightarrow>
      results (run_configurations rec img configurations) = []"
  proof
    assume a: "\<forall>c \<in> set configurations. isl (rec c img)"
    then have "filter (\<lambda>c. \<not> isl (rec c img)) configurations = []"
      by (simp add: filter_empty_conv)
    then have "map cand_config (results (run_configurations rec img configurations)) = []"
      by (simp add: run_results_names)
    then show "results (run_configurations rec img configurations) = []" by simp
  qed
  from c e show ?thesis by (simp add: run_results_names)
qed

theorem run_configurations_isolates_failures_witness:
  "results (run_configurations (\<lambda>c p. Inl ''engine crashed'') [] configurations) = [] \<and>
   length (errors (run_configurations (\<lambda>c p. Inl ''engine crashed'') [] configurations)) = 4"
  using run_configurations_isolates_failures [of "\<lambda>c p. Inl ''engine crashed''" "[]"]
  by auto

section \<open>Properties of the selection\<close>

lemma sort_results_Nil: "sort_results res = [] \<longleftrightarrow> res = []"
proof (cases res)
  case Nil
  then show ?thesis by simp
next
  case (Cons a as)
  have "insert_sorted a bs \<noteq> []" for bs by (cases bs) auto
  with Cons show ?thesis by simp
qed

lemma hd_insert_sorted:
  "hd (insert_sorted a bs) =
     (if bs = [] \<or> cand_quality (hd bs) \<le> cand_quality a then a else hd bs)"
  by (cases bs) (auto simp: compare_quality_def)

lemma hd_sort_results:
  "res \<noteq> [] \<Longrightarrow> \<exists>i<length res. hd (sort_results res) = res ! i \<and>
     (\<forall>j<length res. cand_quality (res ! j) \<le> cand_quality (res ! i)) \<and>
     (\<forall>j<i. cand_quality (res ! j) < cand_quality (res ! i))"
proof (induction res)
  case Nil
  then show ?case by simp
next
  case (Cons a as)
  show ?case
  proof (cases "as = []")
    case True
    then show ?thesis by simp
  next
    case False
    from Cons.IH [OF False] obtain i where i: "i < length as"
      and h: "hd (sort_results as) = as ! i"
      and mx: "\<forall>j<length as. cand_quality (as ! j) \<le> cand_quality (as ! i)"
      and fst: "\<forall>j<i. cand_quality (as ! j) < cand_quality (as ! i)" by blast
    have ne: "sort_results as \<noteq> []" using False by (simp add: sort_results_Nil)
    show ?thesis
    proof (cases "cand_quality (as ! i) \<le> cand_quality a")
      case True
      have "hd (sort_results (a # as)) = a" using True h ne by (simp add: hd_insert_sorted)
      moreover have "\<forall>j<length (a # as). cand_quality ((a # as) ! j) \<le> cand_quality a"
      proof (intro allI impI)
        fix j assume "j < length (a # as)"
        then show "cand_quality ((a # as) ! j) \<le> cand_quality a"
          using mx True by (cases j) (auto intro: order_trans)
      qed
      ultimately show ?thesis by (intro exI [of _ 0]) simp
    next
      case False
      have "hd (sort_results (a # as)) = as ! i" using False h ne by (simp add: hd_insert_sorted)
      moreover have "\<forall>j<length (a # as). cand_quality ((a # as) ! j) \<le> cand_quality (as ! i)"
      proof (intro allI impI)
        fix j assume "j < length (a # as)"
        then show "cand_quality ((a # as) ! j) \<le> cand_quality (as ! i)"
          using mx False by (cases j) auto
      qed
      moreover have "\<forall>j<Suc i. cand_quality ((a # as) ! j) < cand_quality (as ! i)"
      proof (intro allI impI)
        fix j assume "j < Suc i"
        then show "cand_quality ((a # as) ! j) < cand_quality (as ! i)"
          using fst False by (cases j) auto
      qed
      ultimately show ?thesis using i by (intro exI [of _ "Suc i"]) simp
    qed
  qed
qed

text \<open>
  Claim C4. For a candidate list that is not empty, the candidate at the head of the sorted
  list is a candidate of the highest quality, and the first such candidate of the list:
  every candidate before it has a strictly lower quality. The candidates come in the order
  in which the configurations are declared, so among equal qualities the configuration
  declared first wins. The selection is a function of the candidate list.
\<close>

theorem selector_picks_first_best:
  "(res \<noteq> [] \<longrightarrow>
     (\<exists>i<length res.
        (\<exists>rest. sort_results res = res ! i # rest) \<and>
        (\<forall>j<length res. cand_quality (res ! j) \<le> cand_quality (res ! i)) \<and>
        (\<forall>j<i. cand_quality (res ! j) < cand_quality (res ! i)) \<and>
        select_best res =
          (if cand_text (res ! i) = [] then Inl ''No text could be extracted from the image''
           else Inr (cand_text (res ! i))))) \<and>
   subseq (map cand_config (results (run_configurations rec img configurations)))
     (map cfg_name configurations)"
proof
  show "res \<noteq> [] \<longrightarrow>
     (\<exists>i<length res.
        (\<exists>rest. sort_results res = res ! i # rest) \<and>
        (\<forall>j<length res. cand_quality (res ! j) \<le> cand_quality (res ! i)) \<and>
        (\<forall>j<i. cand_quality (res ! j) < cand_quality (res ! i)) \<and>
        select_best res =
          (if cand_text (res ! i) = [] then Inl ''No text could be extracted from the image''
           else Inr (cand_text (res ! i))))"
  proof
    assume ne: "res \<noteq> []"
    from hd_sort_results [OF ne] obtain i where i: "i < length res"
      and h: "hd (sort_results res) = res ! i"
      and mx: "\<forall>j<length res. cand_quality (res ! j) \<le> cand_quality (res ! i)"
      and fst: "\<forall>j<i. cand_quality (res ! j) < cand_quality (res ! i)" by blast
    from ne have "sort_results res \<noteq> []" by (simp add: sort_results_Nil)
    then obtain b rest where s: "sort_results res = b # rest" by (cases "sort_results res") auto
    with h have b: "b = res ! i" by simp
    have "select_best res =
          (if cand_text (res ! i) = [] then Inl ''No text could be extracted from the image''
           else Inr (cand_text (res ! i)))"
      using s b by (simp add: select_best_def)
    with i s b mx fst show "\<exists>i<length res.
        (\<exists>rest. sort_results res = res ! i # rest) \<and>
        (\<forall>j<length res. cand_quality (res ! j) \<le> cand_quality (res ! i)) \<and>
        (\<forall>j<i. cand_quality (res ! j) < cand_quality (res ! i)) \<and>
        select_best res =
          (if cand_text (res ! i) = [] then Inl ''No text could be extracted from the image''
           else Inr (cand_text (res ! i)))" by blast
  qed
next
  show "subseq (map cand_config (results (run_configurations rec img configurations)))
     (map cfg_name configurations)"
    by (simp add: run_results_names subseq_map)
qed

theorem selector_picks_first_best_witness:
  "[\<lparr>cand_text = js ''beta'', cand_quality = 17 / 20, cand_config = ''PSM 3 - Auto''\<rparr>,
    \<lparr>cand_text = js ''gamma'', cand_quality = 17 / 20, cand_config = ''PSM 11 - Sparse''\<rparr>] \<noteq> [] \<and>
   select_best
     [\<lparr>cand_text = js ''beta'', cand_quality = 17 / 20, cand_config = ''PSM 3 - Auto''\<rparr>,
      \<lparr>cand_text = js ''gamma'', cand_quality = 17 / 20, cand_config = ''PSM 11 - Sparse''\<rparr>]
     = Inr (js ''beta'')"
  using selector_picks_first_best
    [of "[\<lparr>cand_text = js ''beta'', cand_quality = 17 / 20, cand_config = ''PSM 3 - Auto''\<rparr>,
          \<lparr>cand_text = js ''gamma'', cand_quality = 17 / 20, cand_config = ''PSM 11 - Sparse''\<rparr>]"]
  by (simp add: select_best_def compare_quality_def js_def)

section \<open>Properties of the matcher\<close>

lemma star_iter_range:
  assumes f: "\<And>i j. i \<le> n0 \<Longrightarrow> j \<in> set (f i) \<Longrightarrow> i \<le> j \<and> j \<le> n0"
  shows "i \<le> n0 \<Longrightarrow> j \<in> set (star_iter f k i) \<Longrightarrow> i \<le> j \<and> j \<le> n0"
proof (induction k arbitrary: i j)
  case 0
  then show ?case by simp
next
  case (Suc k)
  from Suc.prems(2) have "j = i \<or> (\<exists>m. m \<in> set (f i) \<and> i < m \<and> j \<in> set (star_iter f k m))"
    by auto
  then show ?case
  proof
    assume "j = i"
    with Suc.prems show ?thesis by simp
  next
    assume "\<exists>m. m \<in> set (f i) \<and> i < m \<and> j \<in> set (star_iter f k m)"
    then obtain m where m: "m \<in> set (f i)" "i < m" "j \<in> set (star_iter f k m)" by blast
    from f [OF Suc.prems(1) m(1)] have "m \<le> n0" by simp
    from Suc.IH [OF this m(3)] m(2) show ?thesis by simp
  qed
qed

lemma rmatch_range:
  "i \<le> length s \<Longrightarrow> j \<in> set (rmatch r s i) \<Longrightarrow> i \<le> j \<and> j \<le> length s"
proof (induction r arbitrary: i j)
  case (Cls P)
  then show ?case by (simp split: if_splits)
next
  case Eps
  then show ?case by simp
next
  case (Seq a b)
  from Seq.prems(2) obtain m where m: "m \<in> set (rmatch a s i)" and j: "j \<in> set (rmatch b s m)"
    by auto
  from Seq.IH(1) [OF Seq.prems(1) m] have "i \<le> m" "m \<le> length s" by simp_all
  with Seq.IH(2) [OF \<open>m \<le> length s\<close> j] show ?case by simp
next
  case (Alt a b)
  from Alt.prems(2) have "j \<in> set (rmatch a s i) \<or> j \<in> set (rmatch b s i)" by simp
  with Alt.IH Alt.prems(1) show ?case by blast
next
  case (Star a)
  have r: "\<And>i j. i \<le> length s \<Longrightarrow> j \<in> set (rmatch a s i) \<Longrightarrow> i \<le> j \<and> j \<le> length s"
    using Star.IH by blast
  from Star.prems(2) have "j \<in> set (star_iter (rmatch a s) (length s - i) i)" by simp
  from star_iter_range [of "length s" "rmatch a s", OF r Star.prems(1) this]
  show ?case .
next
  case (Bol m)
  then show ?case by (simp split: if_splits)
next
  case (Eol m)
  then show ?case by (simp split: if_splits)
qed

lemma first_match_range:
  "first_match r s i = Some j \<Longrightarrow> i \<le> length s \<Longrightarrow> i \<le> j \<and> j \<le> length s"
  using rmatch_range [of i s j r] by (auto simp: first_match_def split: list.splits)

lemma star_iter_nonempty: "star_iter f k i \<noteq> []"
  by (cases k) simp_all

lemma takeWhile_drop_step:
  "i < length s \<Longrightarrow> P (s ! i) \<Longrightarrow>
     takeWhile P (drop i s) = s ! i # takeWhile P (drop (Suc i) s)"
  by (simp add: Cons_nth_drop_Suc [symmetric])

lemma takeWhile_drop_stop:
  "\<not> (i < length s \<and> P (s ! i)) \<Longrightarrow> takeWhile P (drop i s) = []"
  by (cases "i < length s") (simp_all add: Cons_nth_drop_Suc [symmetric])

lemma hd_star_cls:
  assumes f: "\<And>i. f i = (if i < length s \<and> P (s ! i) then [Suc i] else [])"
  shows "hd (star_iter f k i) = i + min k (length (takeWhile P (drop i s)))"
proof (induction k arbitrary: i)
  case 0
  then show ?case by simp
next
  case (Suc k)
  show ?case
  proof (cases "i < length s \<and> P (s ! i)")
    case True
    then have "star_iter f (Suc k) i = star_iter f k (Suc i) @ [i]"
      by (simp add: f)
    then have "hd (star_iter f (Suc k) i) = hd (star_iter f k (Suc i))"
      by (simp only: hd_append2 [OF star_iter_nonempty])
    also have "\<dots> = Suc i + min k (length (takeWhile P (drop (Suc i) s)))" by (rule Suc.IH)
    finally have h: "hd (star_iter f (Suc k) i) = Suc i + min k (length (takeWhile P (drop (Suc i) s)))" .
    have tw: "takeWhile P (drop i s) = s ! i # takeWhile P (drop (Suc i) s)"
      using True by (simp add: takeWhile_drop_step)
    show ?thesis unfolding h tw by simp
  next
    case False
    then have "f i = []" by (auto simp: f)
    then have st: "star_iter f (Suc k) i = [i]" by simp
    have tw: "takeWhile P (drop i s) = []" using False by (rule takeWhile_drop_stop)
    show ?thesis unfolding st tw by simp
  qed
qed

lemma first_match_star_cls:
  "first_match (Star (Cls P)) s i = Some (i + length (takeWhile P (drop i s)))"
proof -
  have "length (takeWhile P (drop i s)) \<le> length s - i"
    using length_takeWhile_le [of P "drop i s"] by simp
  moreover have "hd (star_iter (rmatch (Cls P) s) (length s - i) i)
      = i + min (length s - i) (length (takeWhile P (drop i s)))"
    by (rule hd_star_cls) simp
  ultimately have "hd (rmatch (Star (Cls P)) s i) = i + length (takeWhile P (drop i s))"
    by (simp add: min_def)
  moreover have "rmatch (Star (Cls P)) s i \<noteq> []" by (simp add: star_iter_nonempty)
  ultimately show ?thesis by (cases "rmatch (Star (Cls P)) s i") (simp_all add: first_match_def)
qed

lemma first_match_Seq_Cls:
  "first_match (Seq (Cls P) r) s i =
     (if i < length s \<and> P (s ! i) then first_match r s (Suc i) else None)"
  by (simp add: first_match_def)

lemma first_match_plus_cls:
  "first_match (Plus (Cls P)) s i =
     (if i < length s \<and> P (s ! i) then Some (i + length (takeWhile P (drop i s))) else None)"
  by (simp add: Plus_def first_match_Seq_Cls first_match_star_cls takeWhile_drop_step)

lemma first_match_newlines3:
  "first_match rx_newlines3 s i =
     (if 3 \<le> length (takeWhile (\<lambda>c. c = nl) (drop i s))
      then Some (i + length (takeWhile (\<lambda>c. c = nl) (drop i s))) else None)"
proof -
  let ?P = "\<lambda>c. c = nl"
  show ?thesis
  proof (cases "i < length s \<and> ?P (s ! i)")
    case False
    then show ?thesis by (simp add: rx_newlines3_def first_match_Seq_Cls takeWhile_drop_stop)
  next
    case a: True
    show ?thesis
    proof (cases "Suc i < length s \<and> ?P (s ! Suc i)")
      case False
      with a show ?thesis
        by (simp add: rx_newlines3_def first_match_Seq_Cls takeWhile_drop_step takeWhile_drop_stop)
    next
      case b: True
      show ?thesis
      proof (cases "Suc (Suc i) < length s \<and> ?P (s ! Suc (Suc i))")
        case False
        with a b show ?thesis
          by (auto simp: rx_newlines3_def first_match_Seq_Cls takeWhile_drop_step takeWhile_drop_stop)
      next
        case True
        with a b show ?thesis
          by (simp add: rx_newlines3_def first_match_Seq_Cls first_match_star_cls
              takeWhile_drop_step)
      qed
    qed
  qed
qed

section \<open>Properties of the replacements\<close>

lemma replace_go_skip:
  "k \<le> length suf \<Longrightarrow> replace_go r rep s i k suf = replace_go r rep s (i + k) 0 (drop k suf)"
proof (induction suf arbitrary: i k)
  case Nil
  then show ?case by simp
next
  case (Cons c cs)
  show ?case
  proof (cases k)
    case 0
    then show ?thesis by simp
  next
    case (Suc k')
    with Cons.prems have "k' \<le> length cs" by simp
    from Cons.IH [OF this, of "Suc i"] Suc show ?thesis by simp
  qed
qed

lemma replace_go_subseq: "subseq (replace_go r [] s i k suf) suf"
proof (induction suf arbitrary: i k)
  case Nil
  then show ?case by (simp split: option.splits)
next
  case (Cons c cs)
  then show ?case by (auto split: option.splits intro: subseq_Cons')
qed

lemma replace_all_subseq: "subseq (replace_all r [] s) s"
  by (simp add: replace_all_def replace_go_subseq)

lemma collapse_blanks_keep:
  "\<not> is_blank c \<Longrightarrow> collapse_blanks (c # cs) = c # collapse_blanks cs"
  by (cases cs) simp_all

lemma collapse_blanks_run:
  "is_blank c \<Longrightarrow> collapse_blanks (c # cs) = sp # collapse_blanks (dropWhile is_blank cs)"
proof (induction cs arbitrary: c)
  case Nil
  then show ?case by simp
next
  case (Cons d ds)
  show ?case
  proof (cases "is_blank d")
    case True
    with Cons.prems Cons.IH [OF True] show ?thesis by simp
  next
    case False
    with Cons.prems show ?thesis by simp
  qed
qed

lemma replace_go_blanks:
  "replace_go rx_blanks [sp] s i 0 (drop i s) = collapse_blanks (drop i s)"
proof (induction "length s - i" arbitrary: i rule: less_induct)
  case less
  show ?case
  proof (cases "i < length s")
    case False
    then show ?thesis by (simp add: rx_blanks_def first_match_plus_cls)
  next
    case True
    then have d: "drop i s = s ! i # drop (Suc i) s" by (simp add: Cons_nth_drop_Suc)
    show ?thesis
    proof (cases "is_blank (s ! i)")
      case False
      have fm: "first_match rx_blanks s i = None"
        using False by (simp add: rx_blanks_def first_match_plus_cls)
      have ih: "replace_go rx_blanks [sp] s (Suc i) 0 (drop (Suc i) s) = collapse_blanks (drop (Suc i) s)"
        by (rule less) (use True in simp)
      show ?thesis unfolding d using fm ih False by (simp add: collapse_blanks_keep)
    next
      case b: True
      define n where "n = length (takeWhile is_blank (drop (Suc i) s))"
      have n: "n \<le> length (drop (Suc i) s)" unfolding n_def by (rule length_takeWhile_le)
      have fm: "first_match rx_blanks s i = Some (Suc i + n)"
        using True b by (simp add: rx_blanks_def first_match_plus_cls takeWhile_drop_step n_def)
      have "replace_go rx_blanks [sp] s i 0 (s ! i # drop (Suc i) s)
          = sp # replace_go rx_blanks [sp] s (Suc i) n (drop (Suc i) s)"
        using fm by simp
      also have "replace_go rx_blanks [sp] s (Suc i) n (drop (Suc i) s)
          = replace_go rx_blanks [sp] s (Suc i + n) 0 (drop n (drop (Suc i) s))"
        by (rule replace_go_skip [OF n])
      also have "drop n (drop (Suc i) s) = drop (Suc i + n) s" by (simp add: add.commute)
      also have "replace_go rx_blanks [sp] s (Suc i + n) 0 (drop (Suc i + n) s)
          = collapse_blanks (drop (Suc i + n) s)"
        by (rule less) (use True in simp)
      finally have l: "replace_go rx_blanks [sp] s i 0 (s ! i # drop (Suc i) s)
          = sp # collapse_blanks (drop (Suc i + n) s)" .
      have "dropWhile is_blank (drop (Suc i) s) = drop n (drop (Suc i) s)"
        unfolding n_def by (rule dropWhile_eq_drop)
      then have r: "collapse_blanks (s ! i # drop (Suc i) s) = sp # collapse_blanks (drop (Suc i + n) s)"
        using b by (simp add: collapse_blanks_run add.commute)
      show ?thesis unfolding d l r ..
    qed
  qed
qed

lemma replace_all_blanks: "replace_all rx_blanks [sp] s = collapse_blanks s"
  using replace_go_blanks [of s 0] by (simp add: replace_all_def)

lemma squeeze_nl_keep:
  "\<not> 3 \<le> length (takeWhile is_nl (c # cs)) \<Longrightarrow> squeeze_nl (c # cs) = c # squeeze_nl cs"
proof (cases cs)
  case Nil
  then show ?thesis by simp
next
  case (Cons d ds)
  assume a: "\<not> 3 \<le> length (takeWhile is_nl (c # cs))"
  show ?thesis
  proof (cases ds)
    case Nil
    with Cons show ?thesis by simp
  next
    case (Cons e es)
    with \<open>cs = d # ds\<close> a show ?thesis by (auto split: if_splits)
  qed
qed

lemma squeeze_nl_run:
  "3 \<le> length (takeWhile is_nl xs) \<Longrightarrow>
     squeeze_nl xs = nl # nl # squeeze_nl (dropWhile is_nl xs)"
proof (induction xs rule: squeeze_nl.induct)
  case (1 a b c cs)
  from "1.prems" have abc: "a = nl" "b = nl" "c = nl" by (auto split: if_splits)
  show ?case
  proof (cases "3 \<le> length (takeWhile is_nl (b # c # cs))")
    case True
    with "1.IH"(1) abc show ?thesis by simp
  next
    case False
    then have k: "\<not> 3 \<le> length (takeWhile is_nl (c # cs))" using abc by simp
    from False abc have cs: "takeWhile is_nl cs = []"
      by (cases "takeWhile is_nl cs") simp_all
    then have dw: "dropWhile is_nl cs = cs"
      by (metis takeWhile_dropWhile_id append_Nil)
    have "squeeze_nl (b # c # cs) = b # squeeze_nl (c # cs)" by (rule squeeze_nl_keep [OF False])
    also have "squeeze_nl (c # cs) = c # squeeze_nl cs" by (rule squeeze_nl_keep [OF k])
    finally show ?thesis using abc dw by simp
  qed
qed (auto split: if_splits)

lemma replace_go_newlines3:
  "replace_go rx_newlines3 [nl, nl] s i 0 (drop i s) = squeeze_nl (drop i s)"
proof (induction "length s - i" arbitrary: i rule: less_induct)
  case less
  show ?case
  proof (cases "i < length s")
    case False
    then show ?thesis by (simp add: first_match_newlines3)
  next
    case True
    then have d: "drop i s = s ! i # drop (Suc i) s" by (simp add: Cons_nth_drop_Suc)
    show ?thesis
    proof (cases "3 \<le> length (takeWhile is_nl (drop i s))")
      case False
      have fm: "first_match rx_newlines3 s i = None"
        using False by (simp add: first_match_newlines3)
      have ih: "replace_go rx_newlines3 [nl, nl] s (Suc i) 0 (drop (Suc i) s) = squeeze_nl (drop (Suc i) s)"
        by (rule less) (use True in simp)
      have "squeeze_nl (s ! i # drop (Suc i) s) = s ! i # squeeze_nl (drop (Suc i) s)"
        by (rule squeeze_nl_keep) (use False d in simp)
      then show ?thesis unfolding d using fm ih by simp
    next
      case b: True
      define n where "n = length (takeWhile is_nl (drop i s))"
      have n3: "3 \<le> n" using b by (simp add: n_def)
      have "n \<le> length (drop i s)" unfolding n_def by (rule length_takeWhile_le)
      then have n: "n - 1 \<le> length (drop (Suc i) s)" by simp
      have fm: "first_match rx_newlines3 s i = Some (i + n)"
        using b by (simp add: first_match_newlines3 n_def)
      have "replace_go rx_newlines3 [nl, nl] s i 0 (s ! i # drop (Suc i) s)
          = nl # nl # replace_go rx_newlines3 [nl, nl] s (Suc i) (n - 1) (drop (Suc i) s)"
        using fm n3 by simp
      also have "replace_go rx_newlines3 [nl, nl] s (Suc i) (n - 1) (drop (Suc i) s)
          = replace_go rx_newlines3 [nl, nl] s (Suc i + (n - 1)) 0 (drop (n - 1) (drop (Suc i) s))"
        by (rule replace_go_skip [OF n])
      also have "Suc i + (n - 1) = i + n" using n3 by simp
      also have "drop (n - 1) (drop (Suc i) s) = drop (i + n) s" using n3 by (simp add: add.commute)
      also have "replace_go rx_newlines3 [nl, nl] s (i + n) 0 (drop (i + n) s)
          = squeeze_nl (drop (i + n) s)"
        by (rule less) (use True n3 in simp)
      finally have l: "replace_go rx_newlines3 [nl, nl] s i 0 (s ! i # drop (Suc i) s)
          = nl # nl # squeeze_nl (drop (i + n) s)" .
      have "dropWhile is_nl (drop i s) = drop n (drop i s)"
        unfolding n_def by (rule dropWhile_eq_drop)
      then have "dropWhile is_nl (drop i s) = drop (i + n) s" by (simp add: add.commute)
      with squeeze_nl_run [OF b] have r: "squeeze_nl (drop i s) = nl # nl # squeeze_nl (drop (i + n) s)"
        by simp
      show ?thesis using l r by (simp add: d)
    qed
  qed
qed

lemma replace_all_newlines3: "replace_all rx_newlines3 [nl, nl] s = squeeze_nl s"
  using replace_go_newlines3 [of s 0] by (simp add: replace_all_def)

lemma take2_squeeze_nl: "take 2 (squeeze_nl xs) = take 2 xs"
proof (induction xs rule: squeeze_nl.induct)
  case (1 a b c cs)
  show ?case
  proof (cases "a = nl \<and> b = nl \<and> c = nl")
    case True
    with "1.IH"(1) show ?thesis by (simp add: numeral_2_eq_2)
  next
    case False
    from "1.IH"(2) [OF False]
    have "take 1 (take 2 (squeeze_nl (b # c # cs))) = take 1 (take 2 (b # c # cs))"
      by (rule arg_cong)
    then have "take 1 (squeeze_nl (b # c # cs)) = [b]" by simp
    with False show ?thesis by (auto simp: numeral_2_eq_2)
  qed
qed simp_all

section \<open>Properties of trimming and of the squeezed newlines\<close>

lemma trim_Nil [simp]: "trim [] = []"
  by (simp add: trim_def)

lemma dropWhile_fixed: "xs = [] \<or> \<not> P (hd xs) \<Longrightarrow> dropWhile P xs = xs"
  by (cases xs) auto

lemma trim_fixed:
  assumes "s = [] \<or> (\<not> is_space (hd s) \<and> \<not> is_space (last s))"
  shows "trim s = s"
proof (cases "s = []")
  case True
  then show ?thesis by simp
next
  case False
  with assms have h: "\<not> is_space (hd s)" and l: "\<not> is_space (last s)" by simp_all
  have d: "dropWhile is_space s = s" using h by (intro dropWhile_fixed) simp
  have "hd (rev s) = last s" using False by (simp add: hd_rev)
  with l have "\<not> is_space (hd (rev s))" by simp
  then have "dropWhile is_space (rev s) = rev s" by (intro dropWhile_fixed) simp
  with d show ?thesis by (simp add: trim_def)
qed

lemma trim_ends:
  assumes ne: "trim s \<noteq> []"
  shows "\<not> is_space (hd (trim s)) \<and> \<not> is_space (last (trim s))"
proof -
  define d where "d = dropWhile is_space s"
  define r where "r = dropWhile is_space (rev d)"
  have t: "trim s = rev r" by (simp add: trim_def d_def r_def)
  with ne have r: "r \<noteq> []" by simp
  then have "\<not> is_space (hd r)" unfolding r_def by (rule hd_dropWhile)
  moreover have "last (rev r) = hd r" using r by (simp add: last_rev)
  ultimately have l: "\<not> is_space (last (trim s))" by (simp add: t)
  have "suffix r (rev d)" unfolding r_def by (rule suffix_dropWhile)
  then obtain zs where z: "rev d = zs @ r" by (auto simp: suffix_def)
  with r have dn: "d \<noteq> []" by auto
  then have hd: "\<not> is_space (hd d)" unfolding d_def by (rule hd_dropWhile)
  have "hd (rev r) = last r" using r by (simp add: hd_rev)
  also have "last r = last (rev d)" using r by (simp add: z)
  also have "last (rev d) = hd d" using dn by (simp add: last_rev)
  finally have "hd (trim s) = hd d" by (simp add: t)
  with hd l show ?thesis by simp
qed

lemma trim_idem: "trim (trim s) = trim s"
proof (cases "trim s = []")
  case True
  then show ?thesis by simp
next
  case False
  from trim_ends [OF False] show ?thesis by (intro trim_fixed) simp
qed

lemma trim_sublist: "sublist (trim s) s"
proof -
  have "suffix (dropWhile is_space (rev (dropWhile is_space s))) (rev (dropWhile is_space s))"
    by (rule suffix_dropWhile)
  then have "prefix (trim s) (dropWhile is_space s)" by (simp add: suffix_to_prefix trim_def)
  then have "sublist (trim s) (dropWhile is_space s)" by (rule prefix_imp_sublist)
  moreover have "sublist (dropWhile is_space s) s"
    by (rule suffix_imp_sublist) (rule suffix_dropWhile)
  ultimately show ?thesis by (rule sublist_order.order_trans)
qed

lemma trim_subseq: "subseq (trim s) s"
  using trim_sublist by (rule sublist_imp_subseq)

lemma squeeze_nl_fixed: "\<not> sublist [nl, nl, nl] xs \<Longrightarrow> squeeze_nl xs = xs"
proof (induction xs rule: squeeze_nl.induct)
  case (1 a b c cs)
  from "1.prems" have n: "\<not> (a = nl \<and> b = nl \<and> c = nl)"
    by (auto simp: sublist_Cons_right)
  from "1.prems" have "\<not> sublist [nl, nl, nl] (b # c # cs)"
    by (simp add: sublist_Cons_right)
  with "1.IH"(2) [OF n] have "squeeze_nl (b # c # cs) = b # c # cs" by simp
  with n show ?case by auto
qed simp_all

lemma squeeze_nl_no3: "\<not> sublist [nl, nl, nl] (squeeze_nl xs)"
proof (induction xs rule: squeeze_nl.induct)
  case (1 a b c cs)
  show ?case
  proof (cases "a = nl \<and> b = nl \<and> c = nl")
    case True
    with "1.IH"(1) show ?thesis by simp
  next
    case False
    have "take 2 (squeeze_nl (b # c # cs)) = take 2 (b # c # cs)" by (rule take2_squeeze_nl)
    then have t: "take 2 (squeeze_nl (b # c # cs)) = [b, c]" by (simp add: numeral_2_eq_2)
    have np: "\<not> prefix [nl, nl, nl] (a # squeeze_nl (b # c # cs))"
    proof
      assume "prefix [nl, nl, nl] (a # squeeze_nl (b # c # cs))"
      then obtain zs where z: "a # squeeze_nl (b # c # cs) = [nl, nl, nl] @ zs"
        by (auto simp: prefix_def)
      then have "a = nl" and "squeeze_nl (b # c # cs) = nl # nl # zs" by simp_all
      with t have "b = nl" "c = nl" by (simp_all add: numeral_2_eq_2)
      with \<open>a = nl\<close> False show False by simp
    qed
    have e: "squeeze_nl (a # b # c # cs) = a # squeeze_nl (b # c # cs)" using False by auto
    from "1.IH"(2) [OF False] np show ?thesis unfolding e by (simp only: sublist_Cons_right) simp
  qed
qed (auto simp: sublist_Cons_right)

lemma normalize_idem: "normalize_pdf_text (normalize_pdf_text t) = normalize_pdf_text t"
proof -
  have "\<not> sublist [nl, nl, nl] (trim (squeeze_nl t))"
    using squeeze_nl_no3 [of t] trim_sublist [of "squeeze_nl t"]
    by (meson sublist_order.order_trans)
  then have "squeeze_nl (trim (squeeze_nl t)) = trim (squeeze_nl t)" by (rule squeeze_nl_fixed)
  then show ?thesis by (simp add: normalize_pdf_text_def replace_all_newlines3 trim_idem)
qed

section \<open>Properties of splitting and joining lines\<close>

lemma split_nl_nonempty: "split_nl s \<noteq> []"
  by (induction s) (auto split: list.splits)

lemma split_nl_Cons:
  "split_nl (c # cs) =
     (if c = nl then [] # split_nl cs else (c # hd (split_nl cs)) # tl (split_nl cs))"
  using split_nl_nonempty [of cs] by (cases "split_nl cs") simp_all

lemma join_nl_Cons: "join_nl (l # ls) = (if ls = [] then l else l @ nl # join_nl ls)"
  by (cases ls) simp_all

lemma join_split_nl: "join_nl (split_nl s) = s"
proof (induction s)
  case Nil
  then show ?case by simp
next
  case (Cons c cs)
  obtain l ls where s: "split_nl cs = l # ls"
    using split_nl_nonempty [of cs] by (cases "split_nl cs") auto
  with Cons.IH show ?case by (auto simp: join_nl_Cons split: if_splits)
qed

lemma split_nl_no_nl: "l \<in> set (split_nl s) \<Longrightarrow> nl \<notin> set l"
proof (induction s arbitrary: l)
  case Nil
  then show ?case by simp
next
  case (Cons c cs)
  obtain k ks where s: "split_nl cs = k # ks"
    using split_nl_nonempty [of cs] by (cases "split_nl cs") auto
  with Cons show ?case by (auto split: if_splits)
qed

lemma split_nl_line: "nl \<notin> set l \<Longrightarrow> split_nl l = [l]"
  by (induction l) auto

lemma split_nl_append: "nl \<notin> set l \<Longrightarrow> split_nl (l @ nl # rest) = l # split_nl rest"
  by (induction l) auto

lemma split_join_nl:
  "ls \<noteq> [] \<Longrightarrow> \<forall>l \<in> set ls. nl \<notin> set l \<Longrightarrow> split_nl (join_nl ls) = ls"
proof (induction ls)
  case Nil
  then show ?case by simp
next
  case (Cons l ls)
  show ?case
  proof (cases "ls = []")
    case True
    with Cons.prems show ?thesis by (simp add: split_nl_line)
  next
    case False
    with Cons show ?thesis by (simp add: join_nl_Cons split_nl_append)
  qed
qed

lemma subseq_join_filter:
  assumes f: "\<And>l. subseq (f l) l"
  shows "subseq (join_nl (filter P (map f ls))) (join_nl ls)"
proof (induction ls)
  case Nil
  then show ?case by simp
next
  case (Cons l ls)
  let ?R = "filter P (map f ls)"
  have r: "ls = [] \<Longrightarrow> ?R = []" by simp
  show ?case
  proof (cases "ls = []")
    case True
    then show ?thesis using f [of l] by simp
  next
    case False
    then have j: "join_nl (l # ls) = l @ nl # join_nl ls" by (simp add: join_nl_Cons)
    have t: "subseq (join_nl ?R) (l @ nl # join_nl ls)"
      using Cons.IH by (intro list_emb_append2 list_emb_Cons)
    show ?thesis
    proof (cases "P (f l)")
      case False
      then show ?thesis using t j by simp
    next
      case True
      show ?thesis
      proof (cases "?R = []")
        case e: True
        have "subseq (f l) (l @ nl # join_nl ls)"
          using f [of l] by (rule list_emb_prefix)
        then show ?thesis using True e j by simp
      next
        case ne: False
        have "subseq (f l @ nl # join_nl ?R) (l @ nl # join_nl ls)"
          using f [of l] Cons.IH by (intro list_emb_append_mono) simp_all
        then show ?thesis using True ne j by (simp add: join_nl_Cons)
      qed
    qed
  qed
qed

lemma blank_space: "is_blank c \<Longrightarrow> is_space c"
  by (auto simp: is_blank_def is_space_def)

lemma nl_not_blank: "\<not> is_blank nl"
  by (simp add: is_blank_def nl_def)

lemma sp_not_nl: "sp \<noteq> nl"
  by (simp add: sp_def nl_def)

lemma squeeze_nl_line: "nl \<notin> set l \<Longrightarrow> squeeze_nl (l @ rest) = l @ squeeze_nl rest"
proof (induction l)
  case Nil
  then show ?case by simp
next
  case (Cons c l)
  then have "c \<noteq> nl" by auto
  then have "\<not> 3 \<le> length (takeWhile is_nl (c # (l @ rest)))" by simp
  then have "squeeze_nl (c # (l @ rest)) = c # squeeze_nl (l @ rest)" by (rule squeeze_nl_keep)
  with Cons show ?case by simp
qed

lemma join_nl_hd:
  "ls \<noteq> [] \<Longrightarrow> hd ls \<noteq> [] \<Longrightarrow> join_nl ls \<noteq> [] \<and> hd (join_nl ls) = hd (hd ls)"
  by (cases ls) (auto simp: join_nl_Cons)

lemma join_nl_nonempty: "ls \<noteq> [] \<Longrightarrow> \<forall>l \<in> set ls. l \<noteq> [] \<Longrightarrow> join_nl ls \<noteq> []"
  by (cases ls) (auto simp: join_nl_Cons)

lemma join_nl_last:
  "ls \<noteq> [] \<Longrightarrow> \<forall>l \<in> set ls. l \<noteq> [] \<Longrightarrow> last (join_nl ls) = last (last ls)"
proof (induction ls)
  case Nil
  then show ?case by simp
next
  case (Cons l ls)
  show ?case
  proof (cases "ls = []")
    case True
    then show ?thesis by simp
  next
    case False
    with Cons.prems have "join_nl ls \<noteq> []" by (intro join_nl_nonempty) simp_all
    moreover have "last (join_nl ls) = last (last ls)" using Cons False by simp
    ultimately show ?thesis using False by (simp add: join_nl_Cons)
  qed
qed

lemma squeeze_nl_join:
  "\<forall>l \<in> set ls. l \<noteq> [] \<and> nl \<notin> set l \<Longrightarrow> squeeze_nl (join_nl ls) = join_nl ls"
proof (induction ls)
  case Nil
  then show ?case by simp
next
  case (Cons l ls)
  from Cons.prems have l: "nl \<notin> set l" by simp
  show ?case
  proof (cases "ls = []")
    case True
    with squeeze_nl_line [OF l, of "[]"] show ?thesis by simp
  next
    case False
    from Cons.prems False have h: "hd ls \<noteq> []" "nl \<notin> set (hd ls)" by (cases ls; simp)+
    from join_nl_hd [OF False h(1)] obtain c cs where j: "join_nl ls = c # cs" and c: "c = hd (hd ls)"
      by (cases "join_nl ls") auto
    from c h have "c \<noteq> nl" by (metis hd_in_set)
    then have "\<not> 3 \<le> length (takeWhile is_nl (nl # c # cs))" by simp
    then have "squeeze_nl (nl # c # cs) = nl # squeeze_nl (c # cs)" by (rule squeeze_nl_keep)
    moreover have "squeeze_nl (join_nl ls) = join_nl ls" using Cons by simp
    ultimately have "squeeze_nl (nl # join_nl ls) = nl # join_nl ls" by (simp add: j)
    with squeeze_nl_line [OF l, of "nl # join_nl ls"] False show ?thesis
      by (simp add: join_nl_Cons)
  qed
qed

lemma collapse_blanks_append_nl:
  "collapse_blanks (l @ nl # rest) = collapse_blanks l @ nl # collapse_blanks rest"
proof (induction l rule: collapse_blanks.induct)
  case 1
  show ?case by (simp add: collapse_blanks_keep nl_not_blank)
next
  case (2 c)
  show ?case by (simp add: collapse_blanks_keep nl_not_blank)
next
  case (3 c d cs)
  then show ?case by simp
qed

lemma collapse_blanks_join:
  "collapse_blanks (join_nl ls) = join_nl (map collapse_blanks ls)"
proof (induction ls)
  case Nil
  then show ?case by simp
next
  case (Cons l ls)
  then show ?case by (cases "ls = []") (simp_all add: join_nl_Cons collapse_blanks_append_nl)
qed

lemma collapse_blanks_set: "set (collapse_blanks l) \<subseteq> insert sp (set l)"
  by (induction l rule: collapse_blanks.induct) auto

lemma collapse_blanks_hd:
  "l \<noteq> [] \<Longrightarrow> \<not> is_blank (hd l) \<Longrightarrow> collapse_blanks l \<noteq> [] \<and> hd (collapse_blanks l) = hd l"
  by (cases l) (simp_all add: collapse_blanks_keep)

lemma collapse_blanks_nonempty: "l \<noteq> [] \<Longrightarrow> collapse_blanks l \<noteq> []"
  by (induction l rule: collapse_blanks.induct) auto

lemma collapse_blanks_last:
  "l \<noteq> [] \<Longrightarrow> \<not> is_blank (last l) \<Longrightarrow> last (collapse_blanks l) = last l"
proof (induction l)
  case Nil
  then show ?case by simp
next
  case (Cons c l)
  show ?case
  proof (cases l)
    case Nil
    with Cons.prems show ?thesis by simp
  next
    case (Cons d ds)
    with Cons.prems Cons.IH have ih: "last (collapse_blanks (d # ds)) = last (d # ds)" by simp
    have ne: "collapse_blanks (d # ds) \<noteq> []" by (rule collapse_blanks_nonempty) simp
    have step: "last (collapse_blanks (c # d # ds)) = last (collapse_blanks (d # ds))"
      using ne by simp
    have "last (c # d # ds) = last (d # ds)" by simp
    with step ih show ?thesis unfolding Cons by (simp only:)
  qed
qed

lemma collapse_blanks_alnum: "filter is_alnum (collapse_blanks l) = filter is_alnum l"
proof -
  have b: "is_blank c \<Longrightarrow> \<not> is_alnum c" for c
    by (auto simp: is_blank_def is_alnum_def is_letter_def is_upper_def is_lower_def is_digit_def)
  have s: "\<not> is_alnum sp"
    by (simp add: sp_def is_alnum_def is_letter_def is_upper_def is_lower_def is_digit_def)
  show ?thesis by (induction l rule: collapse_blanks.induct) (auto simp: b s)
qed

lemma collapse_blanks_length: "length (collapse_blanks l) \<le> length l"
  by (induction l rule: collapse_blanks.induct) auto

lemma collapse_blanks_tail2:
  "m \<noteq> [] \<Longrightarrow> \<not> is_blank z \<Longrightarrow> 2 \<le> length (collapse_blanks (m @ [z]))"
proof (induction m)
  case Nil
  then show ?case by simp
next
  case (Cons c m)
  show ?case
  proof (cases m)
    case Nil
    with Cons.prems show ?thesis by simp
  next
    case (Cons d ds)
    with Cons.prems Cons.IH have "2 \<le> length (collapse_blanks (d # ds @ [z]))" by simp
    then show ?thesis unfolding Cons by simp
  qed
qed

lemma collapse_blanks_length3:
  assumes "3 \<le> length l" "\<not> is_blank (hd l)" "\<not> is_blank (last l)"
  shows "3 \<le> length (collapse_blanks l)"
proof -
  from assms(1) obtain a l' where l: "l = a # l'" and n: "2 \<le> length l'" by (cases l) auto
  from n have "l' \<noteq> []" by auto
  then obtain m z where l': "l' = m @ [z]" by (cases l' rule: rev_cases) auto
  with n have m: "m \<noteq> []" by auto
  from assms(2) l have a: "\<not> is_blank a" by simp
  from assms(3) l l' have z: "\<not> is_blank z" by simp
  have "collapse_blanks l = a # collapse_blanks (m @ [z])"
    using a by (simp add: l l' collapse_blanks_keep)
  with collapse_blanks_tail2 [OF m z] show ?thesis by simp
qed

section \<open>Properties of the text sanitizer\<close>

lemma tidy_trim_dense:
  assumes "l \<in> set (filter dense_line (map trim (split_nl x)))"
  shows "tidy_line l \<and> dense_line l"
proof -
  from assms obtain l' where l': "l' \<in> set (split_nl x)" and l: "l = trim l'" and d: "dense_line l"
    by auto
  from d have ne: "l \<noteq> []" by (auto simp: dense_line_def split: if_splits)
  have "set l \<subseteq> set l'" unfolding l using trim_sublist [of l'] by (rule set_mono_sublist)
  with split_nl_no_nl [OF l'] have "nl \<notin> set l" by auto
  with ne trim_ends [of l'] d show ?thesis by (simp add: tidy_line_def l)
qed

lemma tidy_collapse: "tidy_line l \<Longrightarrow> tidy_line (collapse_blanks l)"
proof -
  assume t: "tidy_line l"
  then have ne: "l \<noteq> []" and h: "\<not> is_blank (hd l)" and e: "\<not> is_blank (last l)"
    and n: "nl \<notin> set l"
    using blank_space by (auto simp: tidy_line_def)
  from collapse_blanks_set [of l] n sp_not_nl have "nl \<notin> set (collapse_blanks l)" by auto
  with collapse_blanks_hd [OF ne h] collapse_blanks_last [OF ne e] t
  show ?thesis by (simp add: tidy_line_def)
qed

lemma tidy_join_trim:
  assumes "\<forall>l \<in> set ls. tidy_line l"
  shows "trim (join_nl ls) = join_nl ls"
proof (cases "ls = []")
  case True
  then show ?thesis by simp
next
  case False
  from assms have ne: "\<forall>l \<in> set ls. l \<noteq> []" by (simp add: tidy_line_def)
  from False assms have h: "tidy_line (hd ls)" and e: "tidy_line (last ls)" by simp_all
  from h have "hd ls \<noteq> []" by (simp add: tidy_line_def)
  from join_nl_hd [OF False this] h have a: "\<not> is_space (hd (join_nl ls))"
    by (simp add: tidy_line_def)
  from join_nl_last [OF False ne] e have b: "\<not> is_space (last (join_nl ls))"
    by (simp add: tidy_line_def)
  from a b show ?thesis by (intro trim_fixed) simp
qed

lemma keep_line_Nil: "\<not> keep_line []"
  by (simp add: keep_line_def)

lemma tidy_split_join:
  assumes "\<forall>l \<in> set ls. tidy_line l"
  shows "filter keep_line (split_nl (join_nl ls)) = filter keep_line ls"
proof (cases "ls = []")
  case True
  then show ?thesis by (simp add: keep_line_Nil)
next
  case False
  from assms have "\<forall>l \<in> set ls. nl \<notin> set l" by (simp add: tidy_line_def)
  with False show ?thesis by (simp add: split_join_nl)
qed

lemma tidy_text_lines:
  assumes "\<forall>l \<in> set ls. tidy_line l"
  shows "text_lines (join_nl ls) = ls"
proof (cases "ls = []")
  case True
  then show ?thesis by (simp add: text_lines_def)
next
  case False
  from assms have n: "\<forall>l \<in> set ls. nl \<notin> set l" and e: "\<forall>l \<in> set ls. l \<noteq> []"
    by (simp_all add: tidy_line_def)
  from join_nl_nonempty [OF False e] split_join_nl [OF False n] show ?thesis
    by (simp add: text_lines_def)
qed

lemma cleanOCRText_phases:
  "cleanOCRText t =
     join_nl (filter keep_line (map collapse_blanks
       (filter dense_line (map trim (split_nl (strip_phase t))))))"
proof -
  define L1 where "L1 = filter dense_line (map trim (split_nl (strip_phase t)))"
  define L2 where "L2 = map collapse_blanks L1"
  have t1: "\<forall>l \<in> set L1. tidy_line l" unfolding L1_def using tidy_trim_dense by blast
  then have t2: "\<forall>l \<in> set L2. tidy_line l" unfolding L2_def using tidy_collapse by auto
  then have t3: "\<forall>l \<in> set (filter keep_line L2). tidy_line l" by simp
  from t1 have "\<forall>l \<in> set L1. l \<noteq> [] \<and> nl \<notin> set l" by (simp add: tidy_line_def)
  then have a: "replace_all rx_newlines3 [nl, nl] (join_nl L1) = join_nl L1"
    by (simp add: replace_all_newlines3 squeeze_nl_join)
  have b: "replace_all rx_blanks [sp] (join_nl L1) = join_nl L2"
    by (simp add: replace_all_blanks collapse_blanks_join L2_def)
  have c: "trim (join_nl L2) = join_nl L2" using t2 by (rule tidy_join_trim)
  have d: "filter keep_line (split_nl (join_nl L2)) = filter keep_line L2"
    using t2 by (rule tidy_split_join)
  have e: "trim (join_nl (filter keep_line L2)) = join_nl (filter keep_line L2)"
    using t3 by (rule tidy_join_trim)
  have "cleanOCRText t =
     trim (join_nl (filter keep_line (split_nl (trim (replace_all rx_blanks [sp]
       (replace_all rx_newlines3 [nl, nl] (join_nl L1)))))))"
    by (simp add: cleanOCRText_def Let_def strip_phase_def L1_def)
  also have "\<dots> = join_nl (filter keep_line L2)" by (simp only: a b c d e)
  finally show ?thesis by (simp add: L2_def L1_def)
qed

lemma cleanOCRText_lines:
  "text_lines (cleanOCRText t) =
     filter keep_line (map collapse_blanks
       (filter dense_line (map trim (split_nl (strip_phase t)))))"
proof -
  have "\<forall>l \<in> set (filter keep_line (map collapse_blanks
       (filter dense_line (map trim (split_nl (strip_phase t)))))). tidy_line l"
    using tidy_trim_dense tidy_collapse by auto
  then show ?thesis unfolding cleanOCRText_phases by (rule tidy_text_lines)
qed

lemma cleanOCRText_line_props:
  assumes "l \<in> set (text_lines (cleanOCRText t))"
  shows "\<exists>l0. l = collapse_blanks l0 \<and> tidy_line l0 \<and> dense_line l0 \<and> tidy_line l \<and> keep_line l"
proof -
  from assms obtain l0 where l: "l = collapse_blanks l0" and k: "keep_line l"
    and l0: "l0 \<in> set (filter dense_line (map trim (split_nl (strip_phase t))))"
    unfolding cleanOCRText_lines by auto
  from tidy_trim_dense [OF l0] tidy_collapse [of l0] l k show ?thesis by blast
qed

text \<open>
  Claim C10. Every line of the output of \<open>cleanOCRText\<close> has at least 3 code units, and at
  least three tenths of them are alphanumeric: the line passed the density filter, and the
  collapsing of blanks after it keeps the alphanumeric code units, only shortens the line, and
  leaves at least the first code unit, one space and the last code unit.
\<close>

theorem output_lines_dense:
  assumes "l \<in> set (text_lines (cleanOCRText t))"
  shows "3 \<le> length l \<and> 3 * length l \<le> 10 * length (filter is_alnum l)"
proof -
  from cleanOCRText_line_props [OF assms] obtain l0 where l: "l = collapse_blanks l0"
    and t: "tidy_line l0" and d: "dense_line l0" by blast
  from d have n: "3 \<le> length l0" and r: "3 * length l0 \<le> 10 * length (filter is_alnum l0)"
    by (auto simp: dense_line_def Let_def split: if_splits)
  from t have "\<not> is_blank (hd l0)" "\<not> is_blank (last l0)"
    using blank_space by (auto simp: tidy_line_def)
  with n have "3 \<le> length l" unfolding l by (intro collapse_blanks_length3)
  moreover have "3 * length l \<le> 3 * length l0" unfolding l using collapse_blanks_length [of l0] by simp
  ultimately show ?thesis using r by (simp add: l collapse_blanks_alnum)
qed

theorem output_lines_dense_witness:
  "js ''hello world'' \<in> set (text_lines (cleanOCRText (js ''hello   world''))) \<and>
   3 \<le> length (js ''hello world'') \<and>
   3 * length (js ''hello world'') \<le> 10 * length (filter is_alnum (js ''hello world''))"
proof -
  have m: "js ''hello world'' \<in> set (text_lines (cleanOCRText (js ''hello   world'')))"
    by code_simp
  from output_lines_dense [OF m] m show ?thesis by simp
qed

text \<open>
  The last filter holds for the output: no line of the output is matched by a pattern of the
  list \<open>engagementPatterns\<close>.
\<close>

lemma output_lines_no_engagement:
  assumes "l \<in> set (text_lines (cleanOCRText t))"
  shows "\<not> list_ex (\<lambda>pattern. rx_test pattern l) engagementPatterns"
proof -
  from cleanOCRText_line_props [OF assms] have t: "tidy_line l" and k: "keep_line l" by blast+
  from t have "trim l = l" by (intro trim_fixed) (simp add: tidy_line_def)
  with k show ?thesis by (simp add: keep_line_def Let_def split: if_splits)
qed

text \<open>
  Claim C1. No line of the output should have the shape of an engagement metric. The
  replacement of line 81 (\<open>rx_count_line\<close>: a number, spaces, \<open>others\<close> or \<open>comments\<close>) is
  anchored to the raw line, which is trimmed only afterwards, and the patterns of the last
  filter cover \<open>comment\<close> but not \<open>others\<close>: the input line \<open>" 5 others"\<close> leaves the sanitizer
  as the line \<open>"5 others"\<close>, which that replacement matches.
\<close>

theorem padded_count_line_survives:
  "cleanOCRText (js '' 5 others'') = js ''5 others'' \<and>
   text_lines (cleanOCRText (js '' 5 others'')) = [js ''5 others''] \<and>
   rx_test rx_count_line (js ''5 others'')"
  by code_simp

text \<open>
  The same happens when a stripped glyph leaves a blank behind: \<open>"5 others \<copyright>"\<close>.
\<close>

lemma glyph_padded_count_line_survives:
  "cleanOCRText (js ''5 others '' @ [169]) = js ''5 others''"
  by code_simp

text \<open>
  A line that begins with two names, \<open>and\<close>, a number and \<open>others\<close> is matched by the last
  pattern of \<open>engagementPatterns\<close> and so is never a line of the output.
\<close>

lemma names_metrics_line_dropped:
  "js ''Jane Doe and 54 others 5 comments'' \<notin> set (text_lines (cleanOCRText t))"
proof
  assume "js ''Jane Doe and 54 others 5 comments'' \<in> set (text_lines (cleanOCRText t))"
  then have "\<not> list_ex (\<lambda>pattern. rx_test pattern (js ''Jane Doe and 54 others 5 comments''))
      engagementPatterns"
    by (rule output_lines_no_engagement)
  moreover have "list_ex (\<lambda>pattern. rx_test pattern (js ''Jane Doe and 54 others 5 comments''))
      engagementPatterns"
    by code_simp
  ultimately show False by simp
qed

lemma replace_go_same_char:
  "suf = drop i s \<Longrightarrow> replace_go (Cls (\<lambda>c. c = q)) [q] s i 0 suf = suf"
proof (induction suf arbitrary: i)
  case Nil
  then have "\<not> i < length s" by auto
  then show ?case by (simp add: first_match_def)
next
  case (Cons c cs)
  from Cons.prems have i: "i < length s" by (cases "i < length s") auto
  with Cons.prems have c: "s ! i = c" and cs: "cs = drop (Suc i) s"
    by (simp_all add: Cons_nth_drop_Suc [symmetric])
  from Cons.IH [OF cs] have ih: "replace_go (Cls (\<lambda>c. c = q)) [q] s (Suc i) 0 cs = cs" .
  show ?case using i c ih by (simp add: first_match_def)
qed

lemma replace_all_same_char: "replace_all (Cls (\<lambda>c. c = q)) [q] s = s"
  by (simp add: replace_all_def replace_go_same_char)

lemma strip_phase_subseq: "subseq (strip_phase t) t"
proof -
  note r = replace_all_subseq
  have "subseq (strip_phase t) (replace_all rx_symbol_line_short [] t)"
    unfolding strip_phase_def rx_dquote_def rx_squote_def replace_all_same_char
    by (meson r subseq_order.order_trans)
  then show ?thesis using r subseq_order.order_trans by blast
qed

lemma squeeze_nl_subseq: "subseq (squeeze_nl xs) xs"
  by (induction xs rule: squeeze_nl.induct) auto

lemma collapse_blanks_subseq: "subseq (collapse_blanks xs) (map tab_to_space xs)"
proof -
  have b: "is_blank c \<Longrightarrow> tab_to_space c = sp" for c
    by (auto simp: is_blank_def tab_to_space_def sp_def)
  have k: "\<not> is_blank c \<Longrightarrow> tab_to_space c = c" for c
    by (auto simp: is_blank_def tab_to_space_def)
  show ?thesis by (induction xs rule: collapse_blanks.induct) (auto simp: b k)
qed

text \<open>
  Claim C2, as amended. The sanitizer only deletes code units and turns a run of blanks into
  one space: its output is a subsequence of the input in which every tab is read as a space,
  and the output is at most as long as the input. A line of the output need not be a line of
  the input.
\<close>

theorem cleanOCRText_only_deletes:
  "subseq (cleanOCRText t) (map tab_to_space t) \<and> length (cleanOCRText t) \<le> length t"
proof -
  define L1 where "L1 = filter dense_line (map trim (split_nl (strip_phase t)))"
  define L2 where "L2 = map collapse_blanks L1"
  have "subseq (join_nl L1) (join_nl (split_nl (strip_phase t)))"
    unfolding L1_def by (rule subseq_join_filter) (rule trim_subseq)
  then have "subseq (join_nl L1) (strip_phase t)" by (simp add: join_split_nl)
  from this strip_phase_subseq [of t] have "subseq (join_nl L1) t"
    by (rule subseq_order.order_trans)
  then have a: "subseq (map tab_to_space (join_nl L1)) (map tab_to_space t)" by (rule subseq_map)
  have "join_nl L2 = collapse_blanks (join_nl L1)" by (simp add: L2_def collapse_blanks_join)
  then have b: "subseq (join_nl L2) (map tab_to_space (join_nl L1))"
    by (simp add: collapse_blanks_subseq)
  have "subseq (join_nl (filter keep_line (map (\<lambda>l. l) L2))) (join_nl L2)"
    by (rule subseq_join_filter) simp
  then have c: "subseq (join_nl (filter keep_line L2)) (join_nl L2)" by simp
  have d: "cleanOCRText t = join_nl (filter keep_line L2)"
    by (simp add: cleanOCRText_phases L2_def L1_def)
  from c b have "subseq (cleanOCRText t) (map tab_to_space (join_nl L1))"
    unfolding d by (rule subseq_order.order_trans)
  from this a have s: "subseq (cleanOCRText t) (map tab_to_space t)"
    by (rule subseq_order.order_trans)
  from list_emb_length [OF s] show ?thesis using s by simp
qed

text \<open>
  Claim C2, as stated, fails: the phrase \<open>and 54 others 5 comments\<close> is cut out of its line
  and the rest of the line, trimmed, is a line of the output that is no line of the input.
\<close>

theorem cleanOCRText_alters_lines:
  "js ''Jane Doe'' \<in> set (text_lines (cleanOCRText (js ''Jane Doe and 54 others 5 comments''))) \<and>
   js ''Jane Doe'' \<notin> set (split_nl (js ''Jane Doe and 54 others 5 comments''))"
  by code_simp

section \<open>Properties of the quality scorer\<close>

text \<open>
  Claim C3. The score of the empty text is 0, but the score is not bounded by 1, as the
  comment of \<open>scoreOCRQuality\<close> says it is (\<open>Quality score (0-1)\<close>): the first term is the
  average word length divided by 10 and is not capped, so the one word \<open>internationally\<close>
  (15 letters) scores \<open>1.5 * 0.3 + 0.4 + 0.3\<close>, which in double precision is the double
  printed as \<open>1.15\<close>.
\<close>

theorem scoreOCRQuality_above_one:
  "scoreOCRQuality (js ''internationally'') = 2589569785738035 / 2251799813685248 \<and>
   1 < scoreOCRQuality (js ''internationally'') \<and>
   scoreOCRQuality [] = 0"
  by code_simp

section \<open>Properties of the extraction from an image\<close>

lemma trim_cleanOCRText: "trim (cleanOCRText t) = cleanOCRText t"
  by (simp add: cleanOCRText_def Let_def trim_idem)

lemma run_fold_trimmed:
  "\<forall>c \<in> set (results st). trim (cand_text c) = cand_text c \<Longrightarrow>
   \<forall>c \<in> set (results (foldl (run_config rec img) st cs)). trim (cand_text c) = cand_text c"
proof (induction cs arbitrary: st)
  case Nil
  then show ?case by simp
next
  case (Cons a cs)
  have "\<forall>c \<in> set (results (run_config rec img st a)). trim (cand_text c) = cand_text c"
    using Cons.prems by (auto simp: run_config_def Let_def trim_cleanOCRText split: sum.splits)
  from Cons.IH [OF this] show ?case by simp
qed

lemma run_trimmed:
  "c \<in> set (results (run_configurations rec img cs)) \<Longrightarrow> trim (cand_text c) = cand_text c"
  using run_fold_trimmed [of "\<lparr>results = [], errors = []\<rparr>" rec img cs]
  by (simp add: run_configurations_def)

lemma set_insert_sorted: "set (insert_sorted a bs) = insert a (set bs)"
  by (induction bs) auto

lemma set_sort_results: "set (sort_results res) = set res"
  by (induction res) (simp_all add: set_insert_sorted)

text \<open>
  Claim C5, as stated, fails: the worker is terminated inside the \<open>try\<close> block after the
  winner is chosen, and when that fails the \<open>catch\<close> turns it into a failure of the extraction,
  although there is a candidate and its text is not empty.
\<close>

theorem extraction_fails_with_text:
  "extractTextFromImage
     \<lparr>createWorker = Inr (),
      sharp = \<lparr>sharp_loaded = False, metadata = (\<lambda>p. Inr None), toFile = (\<lambda>i ops out. Inr ())\<rparr>,
      recognize = (\<lambda>c p. if cfg_name c = ''PSM 3 - Auto'' then Inr (js ''Hello World'')
                          else Inl ''engine crashed''),
      terminate = (\<lambda>n. if n = 0 then Inl ''worker crashed'' else Inr ())\<rparr>
     (js ''shot.png'') = Inl ''Failed to extract text from image: worker crashed'' \<and>
   select_best (results (run_configurations
     (\<lambda>c p. if cfg_name c = ''PSM 3 - Auto'' then Inr (js ''Hello World'')
             else Inl ''engine crashed'') (js ''shot.png'') configurations))
     = Inr (js ''Hello World'') \<and>
   trim (js ''Hello World'') \<noteq> []"
  by code_simp

text \<open>
  Claim C5, as amended. With the image path that the preprocessor returns,
  \<open>extractTextFromImage\<close> throws exactly when the worker cannot be created, or there is no
  candidate, or the text of the candidate at the head of the sorted list is empty after
  trimming (a cleaned text is already trimmed), or the first call of \<open>worker.terminate()\<close>
  fails. When
  the worker is created and every termination succeeds, what it throws is the wrapped message
  \<open>No text could be extracted from the image\<close>. A text it returns is the text of the candidate
  at the head of the sorted list and is not empty after trimming.
\<close>

theorem extraction_fails_iff:
  assumes "preprocessImage (sharp env) filePath
             (replace_first rx_extension (js ''_preprocessed.png'') filePath) = Inr imagePath"
  shows "(isl (extractTextFromImage env filePath) \<longleftrightarrow>
            isl (createWorker env) \<or>
            results (run_configurations (recognize env) imagePath configurations) = [] \<or>
            trim (cand_text (hd (sort_results
              (results (run_configurations (recognize env) imagePath configurations))))) = [] \<or>
            isl (terminate env 0)) \<and>
         (\<not> isl (createWorker env) \<and> (\<forall>n. \<not> isl (terminate env n)) \<and>
            isl (extractTextFromImage env filePath) \<longrightarrow>
            extractTextFromImage env filePath =
              Inl ''Failed to extract text from image: No text could be extracted from the image'') \<and>
         (\<forall>t. extractTextFromImage env filePath = Inr t \<longrightarrow>
            trim t \<noteq> [] \<and>
            t = cand_text (hd (sort_results
              (results (run_configurations (recognize env) imagePath configurations)))))"
proof -
  define res where "res = results (run_configurations (recognize env) imagePath configurations)"
  have tr: "extract_image_try env filePath =
      (case select_best res of
         Inl err \<Rightarrow> (Inl err, 0)
       | Inr text \<Rightarrow> (case terminate env 0 of Inl err \<Rightarrow> (Inl err, 1) | Inr _ \<Rightarrow> (Inr text, 1)))"
    using assms by (simp add: extract_image_try_def Let_def res_def)
  have sel: "select_best res =
      (if res = [] \<or> trim (cand_text (hd (sort_results res))) = []
       then Inl ''No text could be extracted from the image''
       else Inr (cand_text (hd (sort_results res))))"
  proof (cases "sort_results res")
    case Nil
    then have "res = []" by (simp add: sort_results_Nil)
    with Nil show ?thesis by (simp add: select_best_def)
  next
    case (Cons b rest)
    then have ne: "res \<noteq> []" using sort_results_Nil [of res] by auto
    from Cons have "b \<in> set (sort_results res)" by simp
    then have "b \<in> set res" by (simp add: set_sort_results)
    then have "trim (cand_text b) = cand_text b" unfolding res_def by (rule run_trimmed)
    with Cons ne show ?thesis by (simp add: select_best_def)
  qed
  show ?thesis
  proof (cases "createWorker env")
    case (Inl err)
    then show ?thesis by (simp add: extractTextFromImage_def)
  next
    case w: (Inr worker)
    show ?thesis
    proof (cases "res = [] \<or> trim (cand_text (hd (sort_results res))) = []")
      case True
      with sel have "select_best res = Inl ''No text could be extracted from the image''" by simp
      with tr have "extract_image_try env filePath =
          (Inl ''No text could be extracted from the image'', 0)" by simp
      with w True show ?thesis unfolding res_def [symmetric]
        by (cases "terminate env 0")
          (auto simp: extractTextFromImage_def dest: spec [of _ "0::nat"])
    next
      case False
      with sel have s: "select_best res = Inr (cand_text (hd (sort_results res)))" by simp
      show ?thesis
      proof (cases "terminate env 0")
        case (Inl err)
        with s tr have "extract_image_try env filePath = (Inl err, 1)" by simp
        with w Inl False show ?thesis unfolding res_def [symmetric]
          by (cases "terminate env 1")
            (auto simp: extractTextFromImage_def dest: spec [of _ "0::nat"])
      next
        case (Inr u)
        with s tr have "extract_image_try env filePath =
            (Inr (cand_text (hd (sort_results res))), 1)" by simp
        with w Inr False show ?thesis unfolding res_def [symmetric]
          by (auto simp: extractTextFromImage_def)
      qed
    qed
  qed
qed

theorem extraction_fails_iff_witness:
  "extractTextFromImage
     \<lparr>createWorker = Inr (),
      sharp = \<lparr>sharp_loaded = False, metadata = (\<lambda>p. Inr None), toFile = (\<lambda>i ops out. Inr ())\<rparr>,
      recognize = (\<lambda>c p. if cfg_name c = ''PSM 3 - Auto'' then Inr (js ''Hello World'')
                          else Inl ''engine crashed''),
      terminate = (\<lambda>n. Inr ())\<rparr>
     (js ''shot.png'') = Inr (js ''Hello World'') \<and>
   trim (js ''Hello World'') \<noteq> []"
proof -
  let ?env = "\<lparr>createWorker = Inr (),
      sharp = \<lparr>sharp_loaded = False, metadata = (\<lambda>p. Inr None), toFile = (\<lambda>i ops out. Inr ())\<rparr>,
      recognize = (\<lambda>c p. if cfg_name c = ''PSM 3 - Auto'' then Inr (js ''Hello World'')
                          else Inl ''engine crashed''),
      terminate = (\<lambda>n. Inr ())\<rparr>"
  have p: "preprocessImage (sharp ?env) (js ''shot.png'')
      (replace_first rx_extension (js ''_preprocessed.png'') (js ''shot.png'')) = Inr (js ''shot.png'')"
    by (simp add: preprocessImage_def)
  have e: "extractTextFromImage ?env (js ''shot.png'') = Inr (js ''Hello World'')"
    by code_simp
  from extraction_fails_iff [OF p] e show ?thesis by blast
qed

section \<open>Properties of the PDF extractor\<close>

lemma str_includes_sublist: "str_includes m p \<longleftrightarrow> sublist p m"
  by (induction m) (simp_all add: sublist_Cons_right)

lemma sublist_app_left: "sublist p x \<Longrightarrow> sublist p (a @ x)"
  by (metis sublist_append_leftI sublist_order.order_trans)

lemma sublist_app_right: "sublist p x \<Longrightarrow> sublist p (x @ b)"
  by (metis sublist_append_rightI sublist_order.order_trans)

lemma str_includes_corrupted: "str_includes e p \<Longrightarrow> str_includes (corrupted_message e) p"
  unfolding corrupted_message_def str_includes_sublist
  by (intro sublist_app_left sublist_app_right)

lemma is_xref_corrupted: "is_xref e \<Longrightarrow> is_xref (corrupted_message e)"
  unfolding is_xref_def using str_includes_corrupted by blast

lemma parse_calls:
  "snd (parse_with_recovery env buf) =
     (case pdfParse env buf DefaultOptions of
        Inr data \<Rightarrow> [DefaultOptions]
      | Inl e \<Rightarrow> if is_xref e then [DefaultOptions, MaxZero] else [DefaultOptions])"
  by (simp add: parse_with_recovery_def split: sum.splits)

lemma extract_calls:
  "snd (extractTextFromPDF env p) =
     (case readFile env p of Inl e \<Rightarrow> [] | Inr buf \<Rightarrow> snd (parse_with_recovery env buf))"
  by (simp add: extractTextFromPDF_def extract_try_def split: sum.splits prod.splits)

lemma rethrow_cases:
  "(is_xref e \<and> rethrow e = structural_message e) \<or>
   (\<not> is_xref e \<and> (rethrow e = password_message \<or> rethrow e = failed_message e))"
  by (simp add: rethrow_def)

lemma extract_error:
  "fst (extractTextFromPDF env p) = Inl m \<Longrightarrow> \<exists>e. m = rethrow e"
  by (auto simp: extractTextFromPDF_def split: sum.splits prod.splits)

text \<open>
  Claim C7, as stated, fails: a parse error whose message mentions neither XRef nor a
  password falls into the last branch of the outer \<open>catch\<close>; the error thrown is the generic
  \<open>Failed to extract text from PDF\<close> with the message of the cause and no remediation.
\<close>

theorem pdf_failure_not_always_remediated:
  "fst (extractTextFromPDF
         \<lparr>readFile = (\<lambda>p. Inr []), pdfParse = (\<lambda>b opts. Inl ''Invalid PDF structure'')\<rparr>
         (js ''doc.pdf''))
     = Inl ''Failed to extract text from PDF: Invalid PDF structure'' \<and>
   \<not> has_remediation ''Failed to extract text from PDF: Invalid PDF structure''"
  by code_simp

lemma remediation_structural: "has_remediation (structural_message e)"
proof -
  have "sublist (remediation_suggestions ! 0) (structural_message e)"
    unfolding structural_message_def remediation_suggestions_def nth_Cons_0
    by (intro sublist_app_left) simp
  then show ?thesis
    by (simp add: has_remediation_def remediation_suggestions_def str_includes_sublist)
qed

lemma remediation_password: "has_remediation password_message"
  by code_simp

lemma remediation_no_extractable: "has_remediation (failed_message no_extractable_text_message)"
  by code_simp

lemma no_remediation_no_text: "\<not> has_remediation (failed_message no_text_message)"
  by code_simp

lemma rethrow_no_text: "rethrow no_text_message = failed_message no_text_message"
  by code_simp

lemma rethrow_no_extractable:
  "rethrow no_extractable_text_message = failed_message no_extractable_text_message"
  by code_simp

lemma text_of_data_error:
  "text_of_data data = Inl e \<Longrightarrow>
     (e = no_text_message \<and> (data = None \<or> data = Some [])) \<or>
     (e = no_extractable_text_message \<and>
        (\<exists>t. data = Some t \<and> t \<noteq> [] \<and> normalize_pdf_text t = []))"
  by (auto simp: text_of_data_def Let_def split: option.splits if_splits)

lemma parse_result:
  "fst (parse_with_recovery env buf) =
     (case pdfParse env buf DefaultOptions of
        Inr data \<Rightarrow> Inr data
      | Inl e0 \<Rightarrow>
          if is_xref e0 then
            (case pdfParse env buf MaxZero of
               Inr data \<Rightarrow> Inr data
             | Inl e1 \<Rightarrow> Inl (corrupted_message e0))
          else Inl e0)"
  by (simp add: parse_with_recovery_def split: sum.splits)

lemma extract_try_error:
  assumes "fst (extract_try env p) = Inl e"
  shows "readFile env p = Inl e \<or>
     (\<exists>buf. readFile env p = Inr buf \<and>
        ((pdfParse env buf DefaultOptions = Inl e \<and> \<not> is_xref e) \<or>
         (\<exists>e0. pdfParse env buf DefaultOptions = Inl e0 \<and> is_xref e0 \<and>
            isl (pdfParse env buf MaxZero) \<and> e = corrupted_message e0) \<or>
         (\<exists>data. fst (parse_with_recovery env buf) = Inr data \<and>
            ((e = no_text_message \<and> (data = None \<or> data = Some [])) \<or>
             (e = no_extractable_text_message \<and>
                (\<exists>t. data = Some t \<and> t \<noteq> [] \<and> normalize_pdf_text t = []))))))"
proof (cases "readFile env p")
  case (Inl err)
  with assms show ?thesis by (simp add: extract_try_def)
next
  case (Inr buf)
  obtain r calls where pr: "parse_with_recovery env buf = (r, calls)"
    by (cases "parse_with_recovery env buf") auto
  show ?thesis
  proof (cases r)
    case (Inl err)
    with assms Inr pr have e: "err = e" by (simp add: extract_try_def)
    from pr Inl e have f: "fst (parse_with_recovery env buf) = Inl e" by simp
    have "(pdfParse env buf DefaultOptions = Inl e \<and> \<not> is_xref e) \<or>
         (\<exists>e0. pdfParse env buf DefaultOptions = Inl e0 \<and> is_xref e0 \<and>
            isl (pdfParse env buf MaxZero) \<and> e = corrupted_message e0)"
      using f unfolding parse_result
      by (cases "pdfParse env buf DefaultOptions"; cases "pdfParse env buf MaxZero")
        (auto split: if_splits)
    with Inr show ?thesis by blast
  next
    case r: (Inr data)
    with assms Inr pr have "text_of_data data = Inl e" by (simp add: extract_try_def)
    from text_of_data_error [OF this] pr r Inr show ?thesis by auto
  qed
qed

lemma extract_result:
  "fst (extractTextFromPDF env p) =
     (case fst (extract_try env p) of Inr t \<Rightarrow> Inr t | Inl e \<Rightarrow> Inl (rethrow e))"
  by (cases "extract_try env p") (auto simp: extractTextFromPDF_def split: sum.splits)

text \<open>
  Claim C7, as amended. The parser is called at most twice, and a second time exactly when
  the first call fails with a message that mentions XRef or xref. An error thrown is
  \<open>rethrow e\<close> for the message \<open>e\<close> of its cause, and the cause is the error of reading the
  file, the error of a first parse that is not retried, the corruption error built after a
  failed retry, or one of the two errors for a PDF without text. \<open>rethrow\<close> looks at the
  message only: when it mentions XRef or xref (as the corruption error does) the result is
  the structural message, which has a remediation; otherwise, when it mentions password or
  encrypted, the password message, which has a remediation; otherwise the generic
  \<open>Failed to extract text from PDF\<close> followed by the message. Both errors for a PDF without
  text end in the generic form; the one for an empty normalized text contains a remediation
  sentence, the one for missing text contains none.
\<close>

theorem extractTextFromPDF_retry_and_failures:
  "snd (extractTextFromPDF env p) \<in> {[], [DefaultOptions], [DefaultOptions, MaxZero]} \<and>
   (MaxZero \<in> set (snd (extractTextFromPDF env p)) \<longleftrightarrow>
      (\<exists>buf e. readFile env p = Inr buf \<and> pdfParse env buf DefaultOptions = Inl e \<and> is_xref e)) \<and>
   (\<forall>m. fst (extractTextFromPDF env p) = Inl m \<longrightarrow>
      (\<exists>e. m = rethrow e \<and>
         (readFile env p = Inl e \<or>
          (\<exists>buf. readFile env p = Inr buf \<and>
             ((pdfParse env buf DefaultOptions = Inl e \<and> \<not> is_xref e) \<or>
              (\<exists>e0. pdfParse env buf DefaultOptions = Inl e0 \<and> is_xref e0 \<and>
                 isl (pdfParse env buf MaxZero) \<and> e = corrupted_message e0) \<or>
              (\<exists>data. fst (parse_with_recovery env buf) = Inr data \<and>
                 ((e = no_text_message \<and> (data = None \<or> data = Some [])) \<or>
                  (e = no_extractable_text_message \<and>
                     (\<exists>t. data = Some t \<and> t \<noteq> [] \<and> normalize_pdf_text t = []))))))))) \<and>
   (\<forall>e. is_xref e \<longrightarrow>
      rethrow e = structural_message e \<and> has_remediation (structural_message e)) \<and>
   (\<forall>e0. is_xref e0 \<longrightarrow> is_xref (corrupted_message e0)) \<and>
   (\<forall>e. \<not> is_xref e \<and> (str_includes e ''password'' \<or> str_includes e ''encrypted'') \<longrightarrow>
      rethrow e = password_message) \<and>
   has_remediation password_message \<and>
   (\<forall>e. \<not> is_xref e \<and> \<not> str_includes e ''password'' \<and> \<not> str_includes e ''encrypted'' \<longrightarrow>
      rethrow e = failed_message e) \<and>
   rethrow no_text_message = failed_message no_text_message \<and>
   \<not> has_remediation (failed_message no_text_message) \<and>
   rethrow no_extractable_text_message = failed_message no_extractable_text_message \<and>
   has_remediation (failed_message no_extractable_text_message)"
proof (intro conjI allI impI)
  show "snd (extractTextFromPDF env p) \<in> {[], [DefaultOptions], [DefaultOptions, MaxZero]}"
    by (simp add: extract_calls parse_calls split: sum.splits)
  show "MaxZero \<in> set (snd (extractTextFromPDF env p)) \<longleftrightarrow>
      (\<exists>buf e. readFile env p = Inr buf \<and> pdfParse env buf DefaultOptions = Inl e \<and> is_xref e)"
  proof (cases "readFile env p")
    case (Inl err)
    then show ?thesis by (simp add: extract_calls)
  next
    case (Inr buf)
    then show ?thesis
      by (cases "pdfParse env buf DefaultOptions") (simp_all add: extract_calls parse_calls)
  qed
next
  fix m assume m: "fst (extractTextFromPDF env p) = Inl m"
  then obtain e where e: "fst (extract_try env p) = Inl e" and r: "m = rethrow e"
    unfolding extract_result by (cases "fst (extract_try env p)") auto
  from extract_try_error [OF e] r
  show "\<exists>e. m = rethrow e \<and>
         (readFile env p = Inl e \<or>
          (\<exists>buf. readFile env p = Inr buf \<and>
             ((pdfParse env buf DefaultOptions = Inl e \<and> \<not> is_xref e) \<or>
              (\<exists>e0. pdfParse env buf DefaultOptions = Inl e0 \<and> is_xref e0 \<and>
                 isl (pdfParse env buf MaxZero) \<and> e = corrupted_message e0) \<or>
              (\<exists>data. fst (parse_with_recovery env buf) = Inr data \<and>
                 ((e = no_text_message \<and> (data = None \<or> data = Some [])) \<or>
                  (e = no_extractable_text_message \<and>
                     (\<exists>t. data = Some t \<and> t \<noteq> [] \<and> normalize_pdf_text t = [])))))))"
    by (intro exI [of _ e] conjI) assumption+
next
  fix e assume "is_xref e"
  then show "rethrow e = structural_message e" by (simp add: rethrow_def)
  show "has_remediation (structural_message e)" by (rule remediation_structural)
next
  fix e0 assume "is_xref e0"
  then show "is_xref (corrupted_message e0)" by (rule is_xref_corrupted)
next
  fix e assume "\<not> is_xref e \<and> (str_includes e ''password'' \<or> str_includes e ''encrypted'')"
  then show "rethrow e = password_message" by (auto simp: rethrow_def)
next
  show "has_remediation password_message" by (rule remediation_password)
next
  fix e assume "\<not> is_xref e \<and> \<not> str_includes e ''password'' \<and> \<not> str_includes e ''encrypted''"
  then show "rethrow e = failed_message e" by (simp add: rethrow_def)
next
  show "rethrow no_text_message = failed_message no_text_message" by (rule rethrow_no_text)
  show "\<not> has_remediation (failed_message no_text_message)" by (rule no_remediation_no_text)
  show "rethrow no_extractable_text_message = failed_message no_extractable_text_message"
    by (rule rethrow_no_extractable)
  show "has_remediation (failed_message no_extractable_text_message)"
    by (rule remediation_no_extractable)
qed

theorem extractTextFromPDF_retry_and_failures_witness:
  "MaxZero \<in> set (snd (extractTextFromPDF
     \<lparr>readFile = (\<lambda>p. Inr []),
      pdfParse = (\<lambda>b opts. case opts of DefaultOptions \<Rightarrow> Inl ''bad XRef entry''
                                      | MaxZero \<Rightarrow> Inl ''Invalid PDF structure'')\<rparr>
     (js ''doc.pdf''))) \<and>
   fst (extractTextFromPDF
     \<lparr>readFile = (\<lambda>p. Inr []),
      pdfParse = (\<lambda>b opts. case opts of DefaultOptions \<Rightarrow> Inl ''bad XRef entry''
                                      | MaxZero \<Rightarrow> Inl ''Invalid PDF structure'')\<rparr>
     (js ''doc.pdf''))
     = Inl (structural_message (corrupted_message ''bad XRef entry''))"
proof -
  let ?env = "\<lparr>readFile = (\<lambda>p. Inr []),
      pdfParse = (\<lambda>b opts. case opts of DefaultOptions \<Rightarrow> Inl ''bad XRef entry''
                                      | MaxZero \<Rightarrow> Inl ''Invalid PDF structure'')\<rparr>"
  note t = extractTextFromPDF_retry_and_failures [of ?env "js ''doc.pdf''"]
  have x: "is_xref ''bad XRef entry''" by code_simp
  have "\<exists>buf e. readFile ?env (js ''doc.pdf'') = Inr buf \<and>
      pdfParse ?env buf DefaultOptions = Inl e \<and> is_xref e"
    using x by (intro exI [of _ "[]"] exI [of _ "''bad XRef entry''"]) simp
  with t have a: "MaxZero \<in> set (snd (extractTextFromPDF ?env (js ''doc.pdf'')))" by blast
  have b: "fst (extractTextFromPDF ?env (js ''doc.pdf''))
      = Inl (structural_message (corrupted_message ''bad XRef entry''))"
    using x is_xref_corrupted [OF x]
    by (simp add: extractTextFromPDF_def extract_try_def parse_with_recovery_def rethrow_def)
  from a b show ?thesis by simp
qed

text \<open>
  Claim C8. The normalization of the PDF path (runs of three or more newlines become two,
  then trim) is idempotent; and when the parser delivers a text whose normalization is
  empty, \<open>extractTextFromPDF\<close> throws one of its two errors for a PDF without text, wrapped by
  the outer \<open>catch\<close>.
\<close>

theorem normalize_idempotent_and_empty_fails:
  "normalize_pdf_text (normalize_pdf_text t) = normalize_pdf_text t \<and>
   (readFile env p = Inr buf \<and> fst (parse_with_recovery env buf) = Inr (Some t) \<and>
      normalize_pdf_text t = [] \<longrightarrow>
    fst (extractTextFromPDF env p) =
      Inl (failed_message (if t = [] then no_text_message else no_extractable_text_message)))"
proof
  show "normalize_pdf_text (normalize_pdf_text t) = normalize_pdf_text t" by (rule normalize_idem)
next
  show "readFile env p = Inr buf \<and> fst (parse_with_recovery env buf) = Inr (Some t) \<and>
      normalize_pdf_text t = [] \<longrightarrow>
    fst (extractTextFromPDF env p) =
      Inl (failed_message (if t = [] then no_text_message else no_extractable_text_message))"
  proof
    assume a: "readFile env p = Inr buf \<and> fst (parse_with_recovery env buf) = Inr (Some t) \<and>
      normalize_pdf_text t = []"
    then obtain calls where pr: "parse_with_recovery env buf = (Inr (Some t), calls)"
      by (cases "parse_with_recovery env buf") auto
    have "text_of_data (Some t) =
        Inl (if t = [] then no_text_message else no_extractable_text_message)"
      using a by (simp add: text_of_data_def)
    then have "fst (extract_try env p) =
        Inl (if t = [] then no_text_message else no_extractable_text_message)"
      using a pr by (simp add: extract_try_def)
    then show "fst (extractTextFromPDF env p) =
      Inl (failed_message (if t = [] then no_text_message else no_extractable_text_message))"
      by (cases "extract_try env p")
        (auto simp: extractTextFromPDF_def rethrow_no_text rethrow_no_extractable)
  qed
qed

theorem normalize_idempotent_and_empty_fails_witness:
  "fst (extractTextFromPDF
         \<lparr>readFile = (\<lambda>p. Inr []), pdfParse = (\<lambda>b opts. Inr (Some [10, 32, 10]))\<rparr>
         (js ''scan.pdf''))
     = Inl (failed_message no_extractable_text_message)"
proof -
  let ?env = "\<lparr>readFile = (\<lambda>p. Inr []), pdfParse = (\<lambda>b opts. Inr (Some [10, 32, 10]))\<rparr>"
  have n: "normalize_pdf_text [10, 32, 10] = []" by code_simp
  have "readFile ?env (js ''scan.pdf'') = Inr [] \<and>
      fst (parse_with_recovery ?env []) = Inr (Some [10, 32, 10]) \<and>
      normalize_pdf_text [10, 32, 10] = []"
    using n by (simp add: parse_with_recovery_def)
  with normalize_idempotent_and_empty_fails [of "[10, 32, 10]" ?env "js ''scan.pdf''" "[]"]
  show ?thesis by simp
qed

end
